theory Spec2Isabelle
  imports
    Complex_Main
    "HOL-Library.Char_ord"
    "HOL-Library.List_Lexorder"
    "HOL-Library.Product_Lexorder"
begin

section \<open>Smart campus navigation: the constraint-aware shortest-path engine\<close>

text \<open>
  A shallow embedding of \<^verbatim>\<open>campus-nav-python.py\<close> (the graph, the constraint
  store, the weight function, Dijkstra's search and the nearest-exit query) and of the
  reset endpoint of \<^verbatim>\<open>campus-nav-api.py\<close>.

  Python values are modelled as follows.
  \<^item> \<^verbatim>\<open>str\<close> is \<open>string\<close>; strings are ordered as Python orders them (by code
    point, which for UTF-8 bytes is the lexicographic order of the bytes).
  \<^item> A \<^verbatim>\<open>dict\<close> that the code iterates over (\<^verbatim>\<open>nodes\<close>, \<^verbatim>\<open>connections\<close>) is an
    association list in insertion order, read with \<open>map_of\<close>; the working dictionaries
    \<^verbatim>\<open>distances\<close> and \<^verbatim>\<open>previous\<close>, which are only indexed, are maps.
  \<^item> A number that is an \<^verbatim>\<open>int\<close> or \<^verbatim>\<open>float('inf')\<close> is a \<open>cost\<close>.
  \<^item> A finite \<^verbatim>\<open>float\<close> is the rational number it denotes; arithmetic on floats
    rounds to the nearest number with a 53-bit significand, ties to even. The exponent
    range is not bounded, so overflow to infinity and subnormal numbers are outside
    the model.
  \<^item> \<^verbatim>\<open>KeyError\<close> is a value: fallible functions return \<open>error + 'a\<close>.
  \<^item> The loop that rebuilds the path has no bound of its own, so it is a partial
    function and the search returns an \<open>option\<close>: \<open>None\<close> means that it does not return.
\<close>

subsection \<open>Numbers\<close>

datatype cost = Fin int | Inf

instantiation cost :: linorder
begin

fun less_eq_cost :: "cost \<Rightarrow> cost \<Rightarrow> bool" where
  "less_eq_cost (Fin a) (Fin b) = (a \<le> b)"
| "less_eq_cost _ Inf = True"
| "less_eq_cost Inf (Fin _) = False"

fun less_cost :: "cost \<Rightarrow> cost \<Rightarrow> bool" where
  "less_cost (Fin a) (Fin b) = (a < b)"
| "less_cost (Fin _) Inf = True"
| "less_cost Inf _ = False"

instance
proof
  fix x y z :: cost
  show "(x < y) = (x \<le> y \<and> \<not> y \<le> x)"
    by (cases x; cases y) auto
  show "x \<le> x"
    by (cases x) auto
  show "x \<le> y \<Longrightarrow> y \<le> z \<Longrightarrow> x \<le> z"
    by (cases x; cases y; cases z) auto
  show "x \<le> y \<Longrightarrow> y \<le> x \<Longrightarrow> x = y"
    by (cases x; cases y) auto
  show "x \<le> y \<or> y \<le> x"
    by (cases x; cases y) auto
qed

end

text \<open>\<^verbatim>\<open>a + b\<close> on such numbers: infinity absorbs.\<close>

fun add_cost :: "cost \<Rightarrow> cost \<Rightarrow> cost" where
  "add_cost (Fin a) (Fin b) = Fin (a + b)"
| "add_cost _ _ = Inf"

text \<open>Python's \<^verbatim>\<open>round(x)\<close> on a float: the nearest integer, a tie going to the even one.\<close>

definition py_round :: "rat \<Rightarrow> int" where
  "py_round q =
     (let f = \<lfloor>q\<rfloor>; r = q - of_int f
      in if r < 1 / 2 then f
         else if 1 / 2 < r then f + 1
         else if even f then f else f + 1)"

text \<open>Rounding half up, the rule the specification names: ties go upward.\<close>

definition round_half_up :: "rat \<Rightarrow> int" where
  "round_half_up q = \<lfloor>q + 1 / 2\<rfloor>"

fun bit_length :: "nat \<Rightarrow> nat" where
  "bit_length n = (if n = 0 then 0 else Suc (bit_length (n div 2)))"

declare bit_length.simps [simp del]

definition pow2 :: "int \<Rightarrow> rat" where
  "pow2 k = (if 0 \<le> k then 2 ^ nat k else 1 / 2 ^ nat (- k))"

text \<open>For \<open>0 < q\<close>, the exponent \<open>e\<close> with \<open>2 ^ e \<le> q < 2 ^ (e + 1)\<close>.\<close>

definition float_exponent :: "rat \<Rightarrow> int" where
  "float_exponent q =
     (if 1 \<le> q then int (bit_length (nat \<lfloor>q\<rfloor>)) - 1
      else - int (bit_length (nat (\<lceil>1 / q\<rceil> - 1))))"

text \<open>The float nearest to a rational number: 53 significant bits, ties to even.\<close>

definition to_float :: "rat \<Rightarrow> rat" where
  "to_float q =
     (if q = 0 then 0
      else let a = \<bar>q\<bar>; s = pow2 (float_exponent a - 52)
           in sgn q * of_int (py_round (a / s)) * s)"

text \<open>\<^verbatim>\<open>base_distance * multiplier\<close>: the \<^verbatim>\<open>int\<close> is converted to a float, then multiplied.\<close>

definition float_mul :: "int \<Rightarrow> rat \<Rightarrow> rat" where
  "float_mul d m = to_float (to_float (of_int d) * m)"

subsection \<open>The graph\<close>

datatype NodeType = ENTRANCE | ACADEMIC | LAB | ADMIN | FACILITY | SPORTS | RESIDENCE

datatype TimeOfDay = MORNING | AFTERNOON | EVENING

record TrafficMultiplier =
  morning :: rat
  afternoon :: rat
  evening :: rat

record Connection =
  distance :: int
  traffic :: TrafficMultiplier

text \<open>
  The fields \<^verbatim>\<open>x\<close>, \<^verbatim>\<open>y\<close> and \<^verbatim>\<open>icon\<close> of \<^verbatim>\<open>Node\<close> are \<open>x_pos\<close>, \<open>y_pos\<close> and
  \<open>icon\<close>; the icon is the UTF-8 encoding of the source's character.
\<close>

record Node =
  x_pos :: int
  y_pos :: int
  connections :: "(string \<times> Connection) list"
  node_type :: NodeType
  icon :: string

record CampusGraph =
  nodes :: "(string \<times> Node) list"
  exit_points :: "string list"

text \<open>
  \<^verbatim>\<open>Connection(d, TrafficMultiplier(m, a, e))\<close>: \<open>mk_conn\<close> takes the three floats,
  \<open>conn\<close> the decimal literals that the source writes, each of which denotes the
  float nearest to it.
\<close>

definition mk_conn :: "int \<Rightarrow> rat \<Rightarrow> rat \<Rightarrow> rat \<Rightarrow> Connection" where
  "mk_conn d m a e =
     \<lparr>distance = d, traffic = \<lparr>morning = m, afternoon = a, evening = e\<rparr>\<rparr>"

definition conn :: "int \<Rightarrow> rat \<Rightarrow> rat \<Rightarrow> rat \<Rightarrow> Connection" where
  "conn d m a e = mk_conn d (to_float m) (to_float a) (to_float e)"

definition initialize_campus_graph :: "(string \<times> Node) list" where
  "initialize_campus_graph =
   [(''Main Gate'', \<lparr>x_pos = 100, y_pos = 300,
       connections =
        [(''Library'', conn 150 (15/10) (10/10) (12/10)),
         (''Admin Block'', conn 200 (18/10) (13/10) (10/10))],
       node_type = ENTRANCE, icon = [CHR 0xF0, CHR 0x9F, CHR 0x9A, CHR 0xAA]\<rparr>),
    (''Library'', \<lparr>x_pos = 250, y_pos = 250,
       connections =
        [(''Main Gate'', conn 150 (15/10) (10/10) (12/10)),
         (''Computer Lab'', conn 120 (16/10) (14/10) (10/10))],
       node_type = ACADEMIC, icon = [CHR 0xF0, CHR 0x9F, CHR 0x93, CHR 0x9A]\<rparr>),
    (''Computer Lab'', \<lparr>x_pos = 400, y_pos = 200,
       connections =
        [(''Library'', conn 120 (16/10) (14/10) (10/10)),
         (''Lecture Hall'', conn 100 (17/10) (15/10) (10/10)),
         (''Admin Block'', conn 150 (14/10) (12/10) (10/10))],
       node_type = LAB, icon = [CHR 0xF0, CHR 0x9F, CHR 0x92, CHR 0xBB]\<rparr>),
    (''Lecture Hall'', \<lparr>x_pos = 550, y_pos = 250,
       connections =
        [(''Computer Lab'', conn 100 (17/10) (15/10) (10/10)),
         (''Sports Complex'', conn 200 (10/10) (13/10) (16/10)),
         (''Cafeteria'', conn 160 (13/10) (18/10) (14/10))],
       node_type = ACADEMIC, icon = [CHR 0xF0, CHR 0x9F, CHR 0x8E, CHR 0x93]\<rparr>),
    (''Admin Block'', \<lparr>x_pos = 250, y_pos = 400,
       connections =
        [(''Main Gate'', conn 200 (18/10) (13/10) (10/10)),
         (''Computer Lab'', conn 150 (14/10) (12/10) (10/10)),
         (''Cafeteria'', conn 100 (15/10) (12/10) (10/10))],
       node_type = ADMIN, icon = [CHR 0xF0, CHR 0x9F, CHR 0x8F, CHR 0xA2]\<rparr>),
    (''Cafeteria'', \<lparr>x_pos = 400, y_pos = 380,
       connections =
        [(''Admin Block'', conn 100 (15/10) (12/10) (10/10)),
         (''Lecture Hall'', conn 160 (13/10) (18/10) (14/10)),
         (''Auditorium'', conn 140 (10/10) (12/10) (15/10))],
       node_type = FACILITY, icon = [CHR 0xE2, CHR 0x98, CHR 0x95]\<rparr>),
    (''Sports Complex'', \<lparr>x_pos = 700, y_pos = 200,
       connections =
        [(''Lecture Hall'', conn 200 (10/10) (13/10) (16/10)),
         (''Auditorium'', conn 180 (10/10) (14/10) (17/10))],
       node_type = SPORTS, icon = [CHR 0xE2, CHR 0x9A, CHR 0xBD]\<rparr>),
    (''Auditorium'', \<lparr>x_pos = 600, y_pos = 400,
       connections =
        [(''Cafeteria'', conn 140 (10/10) (12/10) (15/10)),
         (''Sports Complex'', conn 180 (10/10) (14/10) (17/10)),
         (''Hostel'', conn 150 (12/10) (10/10) (13/10))],
       node_type = FACILITY, icon = [CHR 0xF0, CHR 0x9F, CHR 0x8E, CHR 0xAD]\<rparr>),
    (''Hostel'', \<lparr>x_pos = 750, y_pos = 380,
       connections =
        [(''Auditorium'', conn 150 (12/10) (10/10) (13/10)),
         (''Sports Complex'', conn 220 (10/10) (11/10) (14/10))],
       node_type = RESIDENCE, icon = [CHR 0xF0, CHR 0x9F, CHR 0x8F, CHR 0xA0]\<rparr>)]"

definition campus_graph :: CampusGraph where
  "campus_graph =
     \<lparr>nodes = initialize_campus_graph, exit_points = [''Main Gate'', ''Sports Complex'']\<rparr>"

definition get_all_nodes :: "CampusGraph \<Rightarrow> string list" where
  "get_all_nodes g = map fst (nodes g)"

definition get_node_info :: "CampusGraph \<Rightarrow> string \<Rightarrow> Node option" where
  "get_node_info g node_name = map_of (nodes g) node_name"

subsection \<open>The constraint store\<close>

record PathFinder =
  graph :: CampusGraph
  blocked_paths :: "(string \<times> string) set"
  hazard_zones :: "string set"

definition new_PathFinder :: "CampusGraph \<Rightarrow> PathFinder" where
  "new_PathFinder g = \<lparr>graph = g, blocked_paths = {}, hazard_zones = {}\<rparr>"

text \<open>\<^verbatim>\<open>tuple(sorted([node1, node2]))\<close>; the sort is stable.\<close>

definition path_key :: "string \<Rightarrow> string \<Rightarrow> string \<times> string" where
  "path_key node1 node2 = (if node2 < node1 then (node2, node1) else (node1, node2))"

definition block_path :: "PathFinder \<Rightarrow> string \<Rightarrow> string \<Rightarrow> PathFinder" where
  "block_path pf node1 node2 =
     pf\<lparr>blocked_paths := insert (path_key node1 node2) (blocked_paths pf)\<rparr>"

definition unblock_path :: "PathFinder \<Rightarrow> string \<Rightarrow> string \<Rightarrow> PathFinder" where
  "unblock_path pf node1 node2 =
     pf\<lparr>blocked_paths := blocked_paths pf - {path_key node1 node2}\<rparr>"

definition add_hazard_zone :: "PathFinder \<Rightarrow> string \<Rightarrow> PathFinder" where
  "add_hazard_zone pf node =
     (if node \<notin> set (exit_points (graph pf))
      then pf\<lparr>hazard_zones := insert node (hazard_zones pf)\<rparr>
      else pf)"

definition remove_hazard_zone :: "PathFinder \<Rightarrow> string \<Rightarrow> PathFinder" where
  "remove_hazard_zone pf node = pf\<lparr>hazard_zones := hazard_zones pf - {node}\<rparr>"

definition clear_hazards :: "PathFinder \<Rightarrow> PathFinder" where
  "clear_hazards pf = pf\<lparr>hazard_zones := {}\<rparr>"

text \<open>The reset endpoint: \<^verbatim>\<open>blocked_paths.clear()\<close>, then \<^verbatim>\<open>clear_hazards()\<close>.\<close>

definition reset_state :: "PathFinder \<Rightarrow> PathFinder" where
  "reset_state pf = clear_hazards (pf\<lparr>blocked_paths := {}\<rparr>)"

subsection \<open>The weight function\<close>

definition get_effective_weight ::
  "PathFinder \<Rightarrow> string \<Rightarrow> string \<Rightarrow> TimeOfDay \<Rightarrow> bool \<Rightarrow> cost" where
  "get_effective_weight pf from_node to_node time_of_day emergency_mode =
     (if path_key from_node to_node \<in> blocked_paths pf then Inf
      else case map_of (nodes (graph pf)) from_node of
        None \<Rightarrow> Inf
      | Some node \<Rightarrow>
         (case map_of (connections node) to_node of
            None \<Rightarrow> Inf
          | Some connection \<Rightarrow>
             (let base_distance = distance connection
              in if emergency_mode
                 then (let hazard_penalty = 0;
                           hazard_penalty =
                             (if from_node \<in> hazard_zones pf
                              then hazard_penalty + 500 else hazard_penalty);
                           hazard_penalty =
                             (if to_node \<in> hazard_zones pf
                              then hazard_penalty + 500 else hazard_penalty)
                       in Fin (base_distance + hazard_penalty))
                 else (let multiplier =
                             (if time_of_day = MORNING then morning (traffic connection)
                              else if time_of_day = AFTERNOON
                                   then afternoon (traffic connection)
                                   else evening (traffic connection))
                       in Fin (py_round (float_mul base_distance multiplier))))))"

subsection \<open>The search\<close>

datatype error = KeyError

text \<open>
  An entry of the step trace. The two display strings of an entry (\<^verbatim>\<open>message\<close> and
  \<^verbatim>\<open>description\<close>) are formatted text for the front end and are left out; the tag,
  the locations and the snapshot of the distances are kept.
\<close>

datatype step_type = StepInit | StepVisit | StepFound | StepRelax

record Step =
  step_kind :: step_type
  step_current :: "string option"
  step_neighbor :: "string option"
  step_distances :: "string \<rightharpoonup> cost"

text \<open>The local variables of \<^verbatim>\<open>dijkstra\<close> that the loop changes.\<close>

record search =
  distances :: "string \<rightharpoonup> cost"
  previous :: "string \<rightharpoonup> string option"
  pq :: "(cost \<times> string) list"
  visited :: "string set"
  steps :: "Step list"

text \<open>
  \<^verbatim>\<open>heapq\<close> keeps \<^verbatim>\<open>pq\<close> as a binary heap inside a list. The search only pushes,
  pops and tests for emptiness, and a pop returns the least item under Python's tuple
  order (first the distance, then the name), so the heap is the list of its items.
\<close>

definition heappush :: "(cost \<times> string) list \<Rightarrow> cost \<times> string \<Rightarrow> (cost \<times> string) list" where
  "heappush h item = item # h"

definition heappop :: "(cost \<times> string) list \<Rightarrow> (cost \<times> string) \<times> (cost \<times> string) list" where
  "heappop h = (let item = Min (set h) in (item, remove1 item h))"

definition add_step :: "bool \<Rightarrow> step_type \<Rightarrow> string option \<Rightarrow> string option \<Rightarrow> search \<Rightarrow> search" where
  "add_step track_steps k c n s =
     (if track_steps
      then s\<lparr>steps := steps s @
             [\<lparr>step_kind = k, step_current = c, step_neighbor = n,
               step_distances = distances s\<rparr>]\<rparr>
      else s)"

text \<open>The loop \<^verbatim>\<open>for neighbor in node.connections\<close>.\<close>

fun relax_neighbors ::
  "PathFinder \<Rightarrow> string \<Rightarrow> TimeOfDay \<Rightarrow> bool \<Rightarrow> bool \<Rightarrow> string list \<Rightarrow> search
     \<Rightarrow> error + search" where
  "relax_neighbors pf cur time_of_day emergency_mode track_steps [] s = Inr s"
| "relax_neighbors pf cur time_of_day emergency_mode track_steps (neighbor # rest) s =
     (if neighbor \<notin> visited s
      then (let edge_weight =
                  get_effective_weight pf cur neighbor time_of_day emergency_mode
            in if edge_weight \<noteq> Inf
               then (case distances s cur of
                       None \<Rightarrow> Inl KeyError
                     | Some d_cur \<Rightarrow>
                        (let alt_distance = add_cost d_cur edge_weight
                         in case distances s neighbor of
                              None \<Rightarrow> Inl KeyError
                            | Some d_nb \<Rightarrow>
                               if alt_distance < d_nb
                               then relax_neighbors pf cur time_of_day emergency_mode
                                      track_steps rest
                                      (add_step track_steps StepRelax (Some cur) (Some neighbor)
                                         (s\<lparr>distances := (distances s)(neighbor \<mapsto> alt_distance),
                                            previous := (previous s)(neighbor \<mapsto> Some cur),
                                            pq := heappush (pq s) (alt_distance, neighbor)\<rparr>))
                               else relax_neighbors pf cur time_of_day emergency_mode
                                      track_steps rest s))
               else relax_neighbors pf cur time_of_day emergency_mode track_steps rest s)
      else relax_neighbors pf cur time_of_day emergency_mode track_steps rest s)"

lemma add_step_sel [simp]:
  "visited (add_step tr k c n s) = visited s"
  "distances (add_step tr k c n s) = distances s"
  "previous (add_step tr k c n s) = previous s"
  "pq (add_step tr k c n s) = pq s"
  by (simp_all add: add_step_def)

lemma relax_neighbors_visited:
  "relax_neighbors pf cur tod em tr ns s = Inr s' \<Longrightarrow> visited s' = visited s"
proof (induction ns arbitrary: s)
  case Nil
  then show ?case by simp
next
  case (Cons nb ns)
  from Cons.prems show ?case
    by (simp add: Let_def split: if_splits option.splits) (auto dest: Cons.IH)
qed

lemma length_heappop:
  "h \<noteq> [] \<Longrightarrow> length (snd (heappop h)) < length h"
proof -
  assume "h \<noteq> []"
  then have "Min (set h) \<in> set h"
    by (intro Min_in) auto
  then show ?thesis
    by (simp add: heappop_def Let_def length_remove1) (cases h; simp)
qed

text \<open>
  One iteration of \<^verbatim>\<open>while pq\<close>, entered with a non-empty heap. \<open>Inl\<close> leaves the
  loop, by \<^verbatim>\<open>break\<close> or with an exception; \<open>Inr\<close> goes on (\<^verbatim>\<open>continue\<close>, or the end
  of the body).
\<close>

definition loop_body ::
  "PathFinder \<Rightarrow> string \<Rightarrow> TimeOfDay \<Rightarrow> bool \<Rightarrow> bool \<Rightarrow> search
     \<Rightarrow> (error + search) + search" where
  "loop_body pf end_node time_of_day emergency_mode track_steps s =
     (let cur = snd (fst (heappop (pq s)));
          s1 = s\<lparr>pq := snd (heappop (pq s))\<rparr>
      in if cur \<in> visited s1 then Inr s1
         else (let s2 = add_step track_steps StepVisit (Some cur) None
                          (s1\<lparr>visited := insert cur (visited s1)\<rparr>)
               in if cur = end_node
                  then Inl (Inr (add_step track_steps StepFound (Some cur) None s2))
                  else (case map_of (nodes (graph pf)) cur of
                          None \<Rightarrow> Inl (Inl KeyError)
                        | Some node \<Rightarrow>
                           (case relax_neighbors pf cur time_of_day emergency_mode
                                   track_steps (map fst (connections node)) s2 of
                              Inl e \<Rightarrow> Inl (Inl e)
                            | Inr s3 \<Rightarrow> Inr s3))))"

definition loop_measure :: "PathFinder \<Rightarrow> search \<Rightarrow> nat \<times> nat" where
  "loop_measure pf s = (card (fst ` set (nodes (graph pf)) - visited s), length (pq s))"

lemma loop_body_decreases:
  assumes "pq s \<noteq> []" and "loop_body pf e t em tr s = Inr s'"
  shows "(loop_measure pf s', loop_measure pf s) \<in> less_than <*lex*> less_than"
proof -
  let ?cur = "snd (fst (heappop (pq s)))"
  let ?V = "fst ` set (nodes (graph pf))"
  show ?thesis
  proof (cases "?cur \<in> visited s")
    case True
    with assms(2) have "s' = s\<lparr>pq := snd (heappop (pq s))\<rparr>"
      by (simp add: loop_body_def Let_def)
    with assms(1) show ?thesis
      by (simp add: loop_measure_def length_heappop)
  next
    case False
    with assms(2) obtain node where node: "map_of (nodes (graph pf)) ?cur = Some node"
      and rel: "relax_neighbors pf ?cur t em tr (map fst (connections node))
                  (add_step tr StepVisit (Some ?cur) None
                     (s\<lparr>pq := snd (heappop (pq s)), visited := insert ?cur (visited s)\<rparr>)) = Inr s'"
      by (auto simp: loop_body_def Let_def split: if_splits option.splits sum.splits)
    from relax_neighbors_visited [OF rel] have v: "visited s' = insert ?cur (visited s)"
      by simp
    from node have "?cur \<in> ?V"
      by (auto dest: map_of_SomeD intro: rev_image_eqI)
    with False have "card (?V - insert ?cur (visited s)) < card (?V - visited s)"
      by (intro psubset_card_mono) auto
    then show ?thesis
      by (simp add: loop_measure_def v)
  qed
qed

text \<open>The loop \<^verbatim>\<open>while pq\<close>.\<close>

function dijkstra_loop ::
  "PathFinder \<Rightarrow> string \<Rightarrow> TimeOfDay \<Rightarrow> bool \<Rightarrow> bool \<Rightarrow> search \<Rightarrow> error + search" where
  "dijkstra_loop pf end_node time_of_day emergency_mode track_steps s =
     (if pq s = [] then Inr s
      else (case loop_body pf end_node time_of_day emergency_mode track_steps s of
              Inl r \<Rightarrow> r
            | Inr s' \<Rightarrow> dijkstra_loop pf end_node time_of_day emergency_mode track_steps s'))"
  by pat_completeness auto
termination
  by (relation "inv_image (less_than <*lex*> less_than)
                  (\<lambda>(pf, e, t, em, tr, s). loop_measure pf s)")
     (auto intro: loop_body_decreases)

declare dijkstra_loop.simps [simp del]

text \<open>The loop that rebuilds the path: \<^verbatim>\<open>while current is not None\<close>.\<close>

partial_function (option) reconstruct ::
  "(string \<rightharpoonup> string option) \<Rightarrow> string option \<Rightarrow> string list
     \<Rightarrow> (error + string list) option" where
  "reconstruct prev cur path =
     (case cur of
        None \<Rightarrow> Some (Inr path)
      | Some c \<Rightarrow>
         (case prev c of
            None \<Rightarrow> Some (Inl KeyError)
          | Some p \<Rightarrow> reconstruct prev p (c # path)))"

declare reconstruct.simps [code]

text \<open>
  \<^verbatim>\<open>PathResult\<close>; its fields \<^verbatim>\<open>path\<close>, \<^verbatim>\<open>distance\<close> and \<^verbatim>\<open>steps\<close> carry the prefix
  \<open>result\<close>, the plain names being fields of other records here.
\<close>

record PathResult =
  result_path :: "string list"
  result_distance :: cost
  result_steps :: "Step list"
  visited_nodes :: "string set"

definition init_search :: "PathFinder \<Rightarrow> string \<Rightarrow> bool \<Rightarrow> search" where
  "init_search pf start track_steps =
     add_step track_steps StepInit None None
       \<lparr>distances = (map_of (map (\<lambda>node. (fst node, Inf)) (nodes (graph pf))))(start \<mapsto> Fin 0),
        previous = map_of (map (\<lambda>node. (fst node, None)) (nodes (graph pf))),
        pq = [(Fin 0, start)],
        visited = {},
        steps = []\<rparr>"

definition dijkstra ::
  "PathFinder \<Rightarrow> string \<Rightarrow> string \<Rightarrow> TimeOfDay \<Rightarrow> bool \<Rightarrow> bool
     \<Rightarrow> (error + PathResult) option" where
  "dijkstra pf start end_node time_of_day emergency_mode track_steps =
     (case dijkstra_loop pf end_node time_of_day emergency_mode track_steps
             (init_search pf start track_steps) of
        Inl e \<Rightarrow> Some (Inl e)
      | Inr s \<Rightarrow>
         (case reconstruct (previous s) (Some end_node) [] of
            None \<Rightarrow> None
          | Some (Inl e) \<Rightarrow> Some (Inl e)
          | Some (Inr path) \<Rightarrow>
             (case distances s end_node of
                None \<Rightarrow> Some (Inl KeyError)
              | Some d \<Rightarrow>
                 Some (Inr \<lparr>result_path = path, result_distance = d,
                            result_steps = steps s, visited_nodes = visited s\<rparr>))))"

subsection \<open>The exit finder\<close>

fun exit_loop ::
  "PathFinder \<Rightarrow> string \<Rightarrow> TimeOfDay \<Rightarrow> string list \<Rightarrow> cost \<Rightarrow> string option
     \<Rightarrow> (error + string option \<times> cost) option" where
  "exit_loop pf start time_of_day [] min_distance nearest_exit =
     Some (Inr (nearest_exit, min_distance))"
| "exit_loop pf start time_of_day (exit_point # rest) min_distance nearest_exit =
     (case dijkstra pf start exit_point time_of_day True False of
        None \<Rightarrow> None
      | Some (Inl e) \<Rightarrow> Some (Inl e)
      | Some (Inr result) \<Rightarrow>
         if result_distance result < min_distance
         then exit_loop pf start time_of_day rest (result_distance result) (Some exit_point)
         else exit_loop pf start time_of_day rest min_distance nearest_exit)"

definition find_nearest_exit ::
  "PathFinder \<Rightarrow> string \<Rightarrow> TimeOfDay \<Rightarrow> (error + string option \<times> cost) option" where
  "find_nearest_exit pf start time_of_day =
     exit_loop pf start time_of_day (exit_points (graph pf)) Inf None"

subsection \<open>Calls on the path finder\<close>

text \<open>
  A call of a method of the \<^verbatim>\<open>PathFinder\<close> object (for \<open>ResetAll\<close>, of the reset
  endpoint): the object after the call and the value that the call returns.
\<close>

datatype operation =
    BlockPath string string
  | UnblockPath string string
  | AddHazard string
  | RemoveHazard string
  | ClearHazards
  | ResetAll
  | FindPath string string TimeOfDay bool bool
  | NearestExit string TimeOfDay

datatype response =
    NoValue
  | PathFound "(error + PathResult) option"
  | ExitFound "(error + string option \<times> cost) option"

fun perform :: "PathFinder \<Rightarrow> operation \<Rightarrow> PathFinder \<times> response" where
  "perform pf (BlockPath node1 node2) = (block_path pf node1 node2, NoValue)"
| "perform pf (UnblockPath node1 node2) = (unblock_path pf node1 node2, NoValue)"
| "perform pf (AddHazard node) = (add_hazard_zone pf node, NoValue)"
| "perform pf (RemoveHazard node) = (remove_hazard_zone pf node, NoValue)"
| "perform pf ClearHazards = (clear_hazards pf, NoValue)"
| "perform pf ResetAll = (reset_state pf, NoValue)"
| "perform pf (FindPath start end_node t em tr) = (pf, PathFound (dijkstra pf start end_node t em tr))"
| "perform pf (NearestExit start t) = (pf, ExitFound (find_nearest_exit pf start t))"

fun perform_all :: "PathFinder \<Rightarrow> operation list \<Rightarrow> PathFinder" where
  "perform_all pf [] = pf"
| "perform_all pf (op # ops) = perform_all (fst (perform pf op)) ops"

subsection \<open>Notions of the specification\<close>

text \<open>The link from one location to another, if the graph has it.\<close>

definition find_connection :: "CampusGraph \<Rightarrow> string \<Rightarrow> string \<Rightarrow> Connection option" where
  "find_connection g from_node to_node =
     (case map_of (nodes g) from_node of
        None \<Rightarrow> None
      | Some node \<Rightarrow> map_of (connections node) to_node)"

definition multiplier_at :: "TimeOfDay \<Rightarrow> TrafficMultiplier \<Rightarrow> rat" where
  "multiplier_at t m =
     (case t of MORNING \<Rightarrow> morning m | AFTERNOON \<Rightarrow> afternoon m | EVENING \<Rightarrow> evening m)"

definition exits_hazard_free :: "PathFinder \<Rightarrow> bool" where
  "exits_hazard_free pf \<longleftrightarrow> hazard_zones pf \<inter> set (exit_points (graph pf)) = {}"

definition path_and_distance :: "(error + PathResult) option \<Rightarrow> (string list \<times> cost) option" where
  "path_and_distance r =
     (case r of Some (Inr res) \<Rightarrow> Some (result_path res, result_distance res) | _ \<Rightarrow> None)"



text \<open>The path finder of the campus with the link Library - Computer Lab closed.\<close>

definition lab_blocked :: PathFinder where
  "lab_blocked = block_path (new_PathFinder campus_graph) ''Library'' ''Computer Lab''"

text \<open>The cost of a path, a list of locations: the sum of the costs of its steps.\<close>

fun path_cost :: "(string \<Rightarrow> string \<Rightarrow> cost) \<Rightarrow> string list \<Rightarrow> cost" where
  "path_cost w (u # v # p) = add_cost (w u v) (path_cost w (v # p))"
| "path_cost w _ = Fin 0"

text \<open>A path from one location to another.\<close>

definition path_from_to :: "string \<Rightarrow> string \<Rightarrow> string list \<Rightarrow> bool" where
  "path_from_to start end_node p \<longleftrightarrow> p \<noteq> [] \<and> hd p = start \<and> last p = end_node"

text \<open>The cost of a step under the weight function, in a mode and a state.\<close>

definition edge_cost :: "PathFinder \<Rightarrow> TimeOfDay \<Rightarrow> bool \<Rightarrow> string \<Rightarrow> string \<Rightarrow> cost" where
  "edge_cost pf t em u v = get_effective_weight pf u v t em"

text \<open>
  The invariants of the graph: every link leads to a location of the graph and has a
  base distance and multipliers that are not negative, and the exit points are
  locations of the graph.
\<close>

definition wf_graph :: "CampusGraph \<Rightarrow> bool" where
  "wf_graph g \<longleftrightarrow>
     (\<forall>(n, node) \<in> set (nodes g). \<forall>(m, c) \<in> set (connections node).
        m \<in> set (get_all_nodes g) \<and> 0 \<le> distance c
        \<and> 0 \<le> morning (traffic c) \<and> 0 \<le> afternoon (traffic c) \<and> 0 \<le> evening (traffic c))
     \<and> set (exit_points g) \<subseteq> set (get_all_nodes g)"

text \<open>The distance that the emergency search from \<open>start\<close> reports for an exit point.\<close>

definition exit_distance :: "PathFinder \<Rightarrow> string \<Rightarrow> TimeOfDay \<Rightarrow> string \<Rightarrow> cost" where
  "exit_distance pf start t e =
     (case dijkstra pf start e t True False of
        Some (Inr r) \<Rightarrow> result_distance r
      | _ \<Rightarrow> Inf)"

text \<open>
  The choice among exit points whose distances are known: the running minimum is
  replaced only by a strictly smaller distance.
\<close>

fun choose_exit :: "(string \<times> cost) list \<Rightarrow> cost \<Rightarrow> string option \<Rightarrow> string option \<times> cost" where
  "choose_exit [] min_distance nearest_exit = (nearest_exit, min_distance)"
| "choose_exit ((e, d) # rest) min_distance nearest_exit =
     (if d < min_distance then choose_exit rest d (Some e)
      else choose_exit rest min_distance nearest_exit)"

text \<open>Every link has a positive base distance.\<close>

definition positive_links :: "CampusGraph \<Rightarrow> bool" where
  "positive_links g \<longleftrightarrow>
     (\<forall>(n, node) \<in> set (nodes g). \<forall>(m, c) \<in> set (connections node). 0 < distance c)"

text \<open>Two exit points joined by a link of length 0.\<close>

definition zero_link_graph :: CampusGraph where
  "zero_link_graph =
     \<lparr>nodes =
        [(''A'', \<lparr>x_pos = 0, y_pos = 0, connections = [(''B'', mk_conn 0 1 1 1)],
                 node_type = ENTRANCE, icon = ''''\<rparr>),
         (''B'', \<lparr>x_pos = 0, y_pos = 0, connections = [(''A'', mk_conn 0 1 1 1)],
                 node_type = ENTRANCE, icon = ''''\<rparr>)],
      exit_points = [''A'', ''B'']\<rparr>"


subsection \<open>Invariants of the search\<close>

text \<open>
  The path that the predecessors give for a location: the location alone when it has
  no predecessor, else the path of its predecessor followed by it.
\<close>

inductive chain :: "(string \<rightharpoonup> string option) \<Rightarrow> string \<Rightarrow> string list \<Rightarrow> bool"
  for prev :: "string \<rightharpoonup> string option" where
  chain_root: "prev v = Some None \<Longrightarrow> chain prev v [v]"
| chain_step: "prev v = Some (Some u) \<Longrightarrow> chain prev u p \<Longrightarrow> chain prev v (p @ [v])"

text \<open>The tentative distance of a location; a missing key reads as infinity.\<close>

definition dist_of :: "search \<Rightarrow> string \<Rightarrow> cost" where
  "dist_of s v = (case distances s v of None \<Rightarrow> Inf | Some c \<Rightarrow> c)"

text \<open>The keys of the two dictionaries, the visited set and the heap stay in the graph.\<close>

definition dom_ok :: "string set \<Rightarrow> search \<Rightarrow> bool" where
  "dom_ok K s \<longleftrightarrow>
     dom (distances s) = K \<and> dom (previous s) = K \<and> visited s \<subseteq> K
     \<and> (\<forall>x\<in>set (pq s). snd x \<in> K)"

text \<open>
  The heap: an item is finite and not below the distance of its location; an unvisited
  location with a finite distance has the item of that distance; no item is below the
  distance of a visited location.
\<close>

definition heap_ok :: "string set \<Rightarrow> search \<Rightarrow> bool" where
  "heap_ok K s \<longleftrightarrow>
     (\<forall>x\<in>set (pq s). fst x \<noteq> Inf \<and> dist_of s (snd x) \<le> fst x)
   \<and> (\<forall>v\<in>K. v \<notin> visited s \<longrightarrow> dist_of s v \<noteq> Inf \<longrightarrow> (dist_of s v, v) \<in> set (pq s))
   \<and> (\<forall>u\<in>visited s. \<forall>x\<in>set (pq s). dist_of s u \<le> fst x)"

text \<open>
  The predecessors: the start has distance 0 and no predecessor; a location with a
  finite distance has a visited predecessor through which it has that distance; a
  visited location has a path from the start, inside the visited set, of its distance.
\<close>

definition tree_ok :: "string set \<Rightarrow> string \<Rightarrow> (string \<Rightarrow> string \<Rightarrow> cost) \<Rightarrow> search \<Rightarrow> bool" where
  "tree_ok K start w s \<longleftrightarrow>
     distances s start = Some (Fin 0) \<and> previous s start = Some None
   \<and> (visited s \<noteq> {} \<longrightarrow> start \<in> visited s)
   \<and> (\<forall>v. Fin 0 \<le> dist_of s v)
   \<and> (\<forall>v\<in>K. dist_of s v = Inf \<longrightarrow> previous s v = Some None)
   \<and> (\<forall>v\<in>K. v \<noteq> start \<longrightarrow> dist_of s v \<noteq> Inf \<longrightarrow>
         (\<exists>u\<in>visited s. previous s v = Some (Some u) \<and> w u v \<noteq> Inf
            \<and> dist_of s v = add_cost (dist_of s u) (w u v)))
   \<and> (\<forall>v\<in>visited s. dist_of s v \<noteq> Inf
         \<and> (\<exists>p. chain (previous s) v p \<and> hd p = start \<and> set p \<subseteq> visited s
                \<and> path_cost w p = dist_of s v))"

text \<open>All links out of a location have been relaxed.\<close>

definition relaxed :: "(string \<Rightarrow> string \<Rightarrow> cost) \<Rightarrow> search \<Rightarrow> string \<Rightarrow> bool" where
  "relaxed w s u \<longleftrightarrow> (\<forall>v. w u v \<noteq> Inf \<longrightarrow> dist_of s v \<le> add_cost (dist_of s u) (w u v))"

text \<open>A finite weight joins two locations of the graph and is not negative.\<close>

definition weights_ok :: "string set \<Rightarrow> (string \<Rightarrow> string \<Rightarrow> cost) \<Rightarrow> bool" where
  "weights_ok K w \<longleftrightarrow> (\<forall>u v. w u v \<noteq> Inf \<longrightarrow> u \<in> K \<and> v \<in> K \<and> Fin 0 \<le> w u v)"

text \<open>The update of one relaxation.\<close>

definition relax_update :: "search \<Rightarrow> string \<Rightarrow> string \<Rightarrow> cost \<Rightarrow> search" where
  "relax_update s cur nb alt =
     s\<lparr>distances := (distances s)(nb \<mapsto> alt),
       previous := (previous s)(nb \<mapsto> Some cur),
       pq := heappush (pq s) (alt, nb)\<rparr>"

text \<open>The location whose links are being relaxed: visited, and the farthest so far.\<close>

definition latest :: "search \<Rightarrow> string \<Rightarrow> bool" where
  "latest s cur \<longleftrightarrow> cur \<in> visited s \<and> (\<forall>u\<in>visited s. dist_of s u \<le> dist_of s cur)"

text \<open>What holds each time the loop tests its heap.\<close>

definition loop_inv ::
  "string set \<Rightarrow> string \<Rightarrow> (string \<Rightarrow> string \<Rightarrow> cost) \<Rightarrow> string \<Rightarrow> search \<Rightarrow> bool" where
  "loop_inv K start w end_node s \<longleftrightarrow>
     dom_ok K s \<and> heap_ok K s \<and> tree_ok K start w s
     \<and> (\<forall>u\<in>visited s. relaxed w s u) \<and> end_node \<notin> visited s"

text \<open>What holds when the loop is left.\<close>

definition search_done ::
  "string set \<Rightarrow> string \<Rightarrow> (string \<Rightarrow> string \<Rightarrow> cost) \<Rightarrow> string \<Rightarrow> search \<Rightarrow> bool" where
  "search_done K start w end_node s \<longleftrightarrow>
     dom_ok K s \<and> tree_ok K start w s
     \<and> (\<forall>u\<in>visited s - {end_node}. relaxed w s u)
     \<and> (\<forall>v. v \<notin> visited s - {end_node} \<longrightarrow> dist_of s end_node \<le> dist_of s v)
     \<and> (end_node \<notin> visited s \<longrightarrow> dist_of s end_node = Inf)"

section \<open>Properties\<close>

subsection \<open>The reference graph\<close>

text \<open>The floats that the literals of the graph denote, and the graph with them.\<close>

lemma to_float_literals:
  "to_float (10/10) = 1"
  "to_float (11/10) = 2476979795053773 / 2251799813685248"
  "to_float (12/10) = 5404319552844595 / 4503599627370496"
  "to_float (13/10) = 5854679515581645 / 4503599627370496"
  "to_float (14/10) = 3152519739159347 / 2251799813685248"
  "to_float (15/10) = 3 / 2"
  "to_float (16/10) = 3602879701896397 / 2251799813685248"
  "to_float (17/10) = 7656119366529843 / 4503599627370496"
  "to_float (18/10) = 8106479329266893 / 4503599627370496"
  by code_simp+

lemma initialize_campus_graph_code [code]:
  "initialize_campus_graph =
   [(''Main Gate'', \<lparr>x_pos = 100, y_pos = 300,
       connections =
        [(''Library'', mk_conn 150 (3 / 2) 1 (5404319552844595 / 4503599627370496)),
         (''Admin Block'', mk_conn 200 (8106479329266893 / 4503599627370496) (5854679515581645 / 4503599627370496) 1)],
       node_type = ENTRANCE, icon = [CHR 0xF0, CHR 0x9F, CHR 0x9A, CHR 0xAA]\<rparr>),
    (''Library'', \<lparr>x_pos = 250, y_pos = 250,
       connections =
        [(''Main Gate'', mk_conn 150 (3 / 2) 1 (5404319552844595 / 4503599627370496)),
         (''Computer Lab'', mk_conn 120 (3602879701896397 / 2251799813685248) (3152519739159347 / 2251799813685248) 1)],
       node_type = ACADEMIC, icon = [CHR 0xF0, CHR 0x9F, CHR 0x93, CHR 0x9A]\<rparr>),
    (''Computer Lab'', \<lparr>x_pos = 400, y_pos = 200,
       connections =
        [(''Library'', mk_conn 120 (3602879701896397 / 2251799813685248) (3152519739159347 / 2251799813685248) 1),
         (''Lecture Hall'', mk_conn 100 (7656119366529843 / 4503599627370496) (3 / 2) 1),
         (''Admin Block'', mk_conn 150 (3152519739159347 / 2251799813685248) (5404319552844595 / 4503599627370496) 1)],
       node_type = LAB, icon = [CHR 0xF0, CHR 0x9F, CHR 0x92, CHR 0xBB]\<rparr>),
    (''Lecture Hall'', \<lparr>x_pos = 550, y_pos = 250,
       connections =
        [(''Computer Lab'', mk_conn 100 (7656119366529843 / 4503599627370496) (3 / 2) 1),
         (''Sports Complex'', mk_conn 200 1 (5854679515581645 / 4503599627370496) (3602879701896397 / 2251799813685248)),
         (''Cafeteria'', mk_conn 160 (5854679515581645 / 4503599627370496) (8106479329266893 / 4503599627370496) (3152519739159347 / 2251799813685248))],
       node_type = ACADEMIC, icon = [CHR 0xF0, CHR 0x9F, CHR 0x8E, CHR 0x93]\<rparr>),
    (''Admin Block'', \<lparr>x_pos = 250, y_pos = 400,
       connections =
        [(''Main Gate'', mk_conn 200 (8106479329266893 / 4503599627370496) (5854679515581645 / 4503599627370496) 1),
         (''Computer Lab'', mk_conn 150 (3152519739159347 / 2251799813685248) (5404319552844595 / 4503599627370496) 1),
         (''Cafeteria'', mk_conn 100 (3 / 2) (5404319552844595 / 4503599627370496) 1)],
       node_type = ADMIN, icon = [CHR 0xF0, CHR 0x9F, CHR 0x8F, CHR 0xA2]\<rparr>),
    (''Cafeteria'', \<lparr>x_pos = 400, y_pos = 380,
       connections =
        [(''Admin Block'', mk_conn 100 (3 / 2) (5404319552844595 / 4503599627370496) 1),
         (''Lecture Hall'', mk_conn 160 (5854679515581645 / 4503599627370496) (8106479329266893 / 4503599627370496) (3152519739159347 / 2251799813685248)),
         (''Auditorium'', mk_conn 140 1 (5404319552844595 / 4503599627370496) (3 / 2))],
       node_type = FACILITY, icon = [CHR 0xE2, CHR 0x98, CHR 0x95]\<rparr>),
    (''Sports Complex'', \<lparr>x_pos = 700, y_pos = 200,
       connections =
        [(''Lecture Hall'', mk_conn 200 1 (5854679515581645 / 4503599627370496) (3602879701896397 / 2251799813685248)),
         (''Auditorium'', mk_conn 180 1 (3152519739159347 / 2251799813685248) (7656119366529843 / 4503599627370496))],
       node_type = SPORTS, icon = [CHR 0xE2, CHR 0x9A, CHR 0xBD]\<rparr>),
    (''Auditorium'', \<lparr>x_pos = 600, y_pos = 400,
       connections =
        [(''Cafeteria'', mk_conn 140 1 (5404319552844595 / 4503599627370496) (3 / 2)),
         (''Sports Complex'', mk_conn 180 1 (3152519739159347 / 2251799813685248) (7656119366529843 / 4503599627370496)),
         (''Hostel'', mk_conn 150 (5404319552844595 / 4503599627370496) 1 (5854679515581645 / 4503599627370496))],
       node_type = FACILITY, icon = [CHR 0xF0, CHR 0x9F, CHR 0x8E, CHR 0xAD]\<rparr>),
    (''Hostel'', \<lparr>x_pos = 750, y_pos = 380,
       connections =
        [(''Auditorium'', mk_conn 150 (5404319552844595 / 4503599627370496) 1 (5854679515581645 / 4503599627370496)),
         (''Sports Complex'', mk_conn 220 1 (2476979795053773 / 2251799813685248) (3152519739159347 / 2251799813685248))],
       node_type = RESIDENCE, icon = [CHR 0xF0, CHR 0x9F, CHR 0x8F, CHR 0xA0]\<rparr>)]"
  unfolding initialize_campus_graph_def conn_def to_float_literals by (rule refl)

lemma campus_products_not_ties:
  "\<forall>(n, node) \<in> set (nodes campus_graph). \<forall>(m, c) \<in> set (connections node).
     \<forall>t \<in> {MORNING, AFTERNOON, EVENING}.
       py_round (float_mul (distance c) (multiplier_at t (traffic c)))
         = round_half_up (float_mul (distance c) (multiplier_at t (traffic c)))"
  by code_simp

subsection \<open>Rounding\<close>





lemma get_effective_weight_emergency:
  assumes "path_key from_node to_node \<notin> blocked_paths pf"
    and "find_connection (graph pf) from_node to_node = Some c"
  shows "get_effective_weight pf from_node to_node t True
           = Fin (distance c + (if from_node \<in> hazard_zones pf then 500 else 0)
                             + (if to_node \<in> hazard_zones pf then 500 else 0))"
  using assms
  by (auto simp: get_effective_weight_def find_connection_def split: option.splits)

lemma path_key_commute: "path_key a b = path_key b a"
  by (auto simp: path_key_def)

subsection \<open>The constraint store\<close>

lemma perform_exits_hazard_free:
  "exits_hazard_free pf \<Longrightarrow> exits_hazard_free (fst (perform pf op))"
  by (cases op)
     (auto simp: exits_hazard_free_def block_path_def unblock_path_def add_hazard_zone_def
        remove_hazard_zone_def clear_hazards_def reset_state_def)

lemma perform_all_exits_hazard_free:
  "exits_hazard_free pf \<Longrightarrow> exits_hazard_free (perform_all pf ops)"
  by (induction ops arbitrary: pf) (auto intro: perform_exits_hazard_free)

lemma add_hazard_zone_not_exit:
  "node \<notin> set (exit_points (graph pf))
     \<Longrightarrow> add_hazard_zone pf node = pf\<lparr>hazard_zones := insert node (hazard_zones pf)\<rparr>"
  by (simp add: add_hazard_zone_def)

subsection \<open>Costs and paths\<close>

lemma cost_le_Inf [simp]: "(c::cost) \<le> Inf"
  by (cases c) simp_all

lemma Inf_le_cost [simp]: "Inf \<le> (c::cost) \<longleftrightarrow> c = Inf"
  by (cases c) simp_all

lemma cost_less_Inf [simp]: "(c::cost) < Inf \<longleftrightarrow> c \<noteq> Inf"
  by (cases c) simp_all

lemma add_cost_Inf [simp]: "add_cost c Inf = Inf" "add_cost Inf c = Inf"
  by (cases c; simp)+

lemma add_cost_eq_Inf [simp]: "add_cost a b = Inf \<longleftrightarrow> a = Inf \<or> b = Inf"
  by (cases a; cases b) simp_all

lemma add_cost_zero [simp]: "add_cost (Fin 0) c = c" "add_cost c (Fin 0) = c"
  by (cases c; simp)+

lemma add_cost_assoc: "add_cost (add_cost a b) c = add_cost a (add_cost b c)"
  by (cases a; cases b; cases c) simp_all

lemma add_cost_mono: "a \<le> b \<Longrightarrow> c \<le> d \<Longrightarrow> add_cost a c \<le> add_cost b d"
  by (cases a; cases b; cases c; cases d) simp_all

lemma le_add_cost: "Fin 0 \<le> c \<Longrightarrow> a \<le> add_cost a c"
  by (cases a; cases c) simp_all

lemma add_cost_nonneg: "Fin 0 \<le> a \<Longrightarrow> Fin 0 \<le> c \<Longrightarrow> Fin 0 \<le> add_cost a c"
  by (cases a; cases c) simp_all

lemma path_cost_snoc:
  "p \<noteq> [] \<Longrightarrow> path_cost w (p @ [v]) = add_cost (path_cost w p) (w (last p) v)"
  by (induction w p rule: path_cost.induct) (simp_all add: add_cost_assoc)

lemma chain_last: "chain prev v p \<Longrightarrow> p \<noteq> [] \<and> last p = v"
  by (induction rule: chain.induct) simp_all

lemma chain_reconstruct:
  "chain prev v p \<Longrightarrow> reconstruct prev (Some v) acc = Some (Inr (p @ acc))"
proof (induction arbitrary: acc rule: chain.induct)
  case (chain_root v)
  then show ?case
    by (simp add: reconstruct.simps [of prev "Some v"] reconstruct.simps [of prev None])
next
  case (chain_step v u p)
  then show ?case
    by (simp add: reconstruct.simps [of prev "Some v"])
qed

lemma chain_update:
  "chain prev v p \<Longrightarrow> x \<notin> set p \<Longrightarrow> chain (prev(x \<mapsto> y)) v p"
proof (induction rule: chain.induct)
  case (chain_root v)
  then show ?case by (auto intro: chain.chain_root)
next
  case (chain_step v u p)
  then show ?case by (auto intro: chain.chain_step)
qed

subsection \<open>Weights are not negative\<close>

lemma py_round_nonneg: "0 \<le> q \<Longrightarrow> 0 \<le> py_round q"
  unfolding py_round_def Let_def by (auto split: if_splits) 

lemma pow2_pos: "0 < pow2 k"
  by (simp add: pow2_def)

lemma to_float_nonneg: "0 \<le> q \<Longrightarrow> 0 \<le> to_float q"
  unfolding to_float_def Let_def
  using pow2_pos by (auto simp: py_round_nonneg zero_le_mult_iff sgn_if less_imp_le)

lemma float_mul_nonneg: "0 \<le> d \<Longrightarrow> 0 \<le> m \<Longrightarrow> 0 \<le> float_mul d m"
  unfolding float_mul_def by (intro to_float_nonneg mult_nonneg_nonneg) simp_all

lemma weight_finiteD:
  assumes "get_effective_weight pf u v t em \<noteq> Inf"
  shows "\<exists>node c. map_of (nodes (graph pf)) u = Some node \<and> map_of (connections node) v = Some c
           \<and> path_key u v \<notin> blocked_paths pf"
  using assms by (auto simp: get_effective_weight_def split: if_splits option.splits)

lemma weight_ok:
  assumes "wf_graph (graph pf)" and "get_effective_weight pf u v t em \<noteq> Inf"
  shows "u \<in> set (get_all_nodes (graph pf)) \<and> v \<in> set (get_all_nodes (graph pf))
         \<and> Fin 0 \<le> get_effective_weight pf u v t em"
proof -
  from weight_finiteD [OF assms(2)] obtain node c where
    n: "map_of (nodes (graph pf)) u = Some node" and c: "map_of (connections node) v = Some c"
    and nb: "path_key u v \<notin> blocked_paths pf"
    by blast
  from n have un: "(u, node) \<in> set (nodes (graph pf))" by (rule map_of_SomeD)
  from c have vc: "(v, c) \<in> set (connections node)" by (rule map_of_SomeD)
  from assms(1) un vc have props: "v \<in> set (get_all_nodes (graph pf))" "0 \<le> distance c"
    "0 \<le> morning (traffic c)" "0 \<le> afternoon (traffic c)" "0 \<le> evening (traffic c)"
    unfolding wf_graph_def by fastforce+
  from un have "u \<in> set (get_all_nodes (graph pf))"
    by (force simp: get_all_nodes_def)
  moreover have "Fin 0 \<le> get_effective_weight pf u v t em"
    using n c nb props
    by (auto simp: get_effective_weight_def Let_def intro!: py_round_nonneg float_mul_nonneg)
  ultimately show ?thesis using props(1) by simp
qed

subsection \<open>The invariant of the search\<close>

lemma dist_of_add_step [simp]: "dist_of (add_step tr k c n s) = dist_of s"
  by (simp add: dist_of_def fun_eq_iff)

lemma inv_add_step [simp]:
  "dom_ok K (add_step tr k c n s) = dom_ok K s"
  "heap_ok K (add_step tr k c n s) = heap_ok K s"
  "tree_ok K start w (add_step tr k c n s) = tree_ok K start w s"
  "relaxed w (add_step tr k c n s) u = relaxed w s u"
  by (simp_all add: dom_ok_def heap_ok_def tree_ok_def relaxed_def)

lemma dist_of_outside: "dom_ok K s \<Longrightarrow> v \<notin> K \<Longrightarrow> dist_of s v = Inf"
  by (auto simp: dom_ok_def dist_of_def split: option.splits)

lemma in_remove1D: "x \<in> set (remove1 m xs) \<Longrightarrow> x \<in> set xs"
  using set_remove1_subset [of m xs] by blast

lemma prod_le_fst: "(a, b) \<le> (c, d) \<Longrightarrow> a \<le> (c::cost)"
  by (auto simp: less_eq_prod_def)

text \<open>What the least item of the heap says, when its node is not visited.\<close>

lemma pop_min_facts:
  assumes d: "dom_ok K s" and h: "heap_ok K s" and ne: "pq s \<noteq> []"
    and m: "Min (set (pq s)) = (c, cur)" and nv: "cur \<notin> visited s"
  shows "cur \<in> K" and "c = dist_of s cur" and "dist_of s cur \<noteq> Inf"
    and "\<And>x. x \<in> set (pq s) \<Longrightarrow> dist_of s cur \<le> fst x"
    and "\<And>u. u \<in> visited s \<Longrightarrow> dist_of s u \<le> dist_of s cur"
    and "\<And>v. v \<notin> visited s \<Longrightarrow> dist_of s cur \<le> dist_of s v"
proof -
  from ne have "Min (set (pq s)) \<in> set (pq s)" by (intro Min_in) auto
  with m have mem: "(c, cur) \<in> set (pq s)" by simp
  have least: "(c, cur) \<le> x" if "x \<in> set (pq s)" for x
    using that m Min_le [of "set (pq s)" x] by simp
  from mem d show K: "cur \<in> K" unfolding dom_ok_def by force
  from mem h have c: "c \<noteq> Inf" "dist_of s cur \<le> c" unfolding heap_ok_def by force+
  then show fin: "dist_of s cur \<noteq> Inf" by auto
  with h K nv have "(dist_of s cur, cur) \<in> set (pq s)" by (auto simp: heap_ok_def)
  from prod_le_fst [OF least [OF this]] c show ceq: "c = dist_of s cur" by simp
  show le: "dist_of s cur \<le> fst x" if "x \<in> set (pq s)" for x
    using prod_le_fst [of c cur "fst x" "snd x"] least [OF that] ceq by simp
  show "dist_of s u \<le> dist_of s cur" if "u \<in> visited s" for u
    using h that mem ceq unfolding heap_ok_def by force
  show "dist_of s cur \<le> dist_of s v" if "v \<notin> visited s" for v
  proof (cases "v \<in> K \<and> dist_of s v \<noteq> Inf")
    case True
    with h that have "(dist_of s v, v) \<in> set (pq s)" by (auto simp: heap_ok_def)
    from le [OF this] show ?thesis by simp
  next
    case False
    then show ?thesis using dist_of_outside [OF d] by auto
  qed
qed

lemma dom_ok_pop:
  assumes "dom_ok K s"
  shows "dom_ok K (s\<lparr>pq := remove1 m (pq s)\<rparr>)"
    and "cur \<in> K \<Longrightarrow> dom_ok K (s\<lparr>pq := remove1 m (pq s), visited := insert cur (visited s)\<rparr>)"
  using assms unfolding dom_ok_def by (auto dest: in_remove1D)

lemma heap_ok_pop_stale:
  assumes h: "heap_ok K s" and "snd m \<in> visited s"
  shows "heap_ok K (s\<lparr>pq := remove1 m (pq s)\<rparr>)"
proof -
  let ?s = "s\<lparr>pq := remove1 m (pq s)\<rparr>"
  have d [simp]: "dist_of ?s = dist_of s" by (simp add: dist_of_def fun_eq_iff)
  have 1: "fst x \<noteq> Inf \<and> dist_of s (snd x) \<le> fst x" if "x \<in> set (remove1 m (pq s))" for x
    using h in_remove1D [OF that] unfolding heap_ok_def by blast
  have 2: "(dist_of s v, v) \<in> set (remove1 m (pq s))"
    if "v \<in> K" "v \<notin> visited s" "dist_of s v \<noteq> Inf" for v
  proof -
    from h that have "(dist_of s v, v) \<in> set (pq s)" by (auto simp: heap_ok_def)
    moreover from that assms(2) have "(dist_of s v, v) \<noteq> m" by auto
    ultimately show ?thesis by simp
  qed
  have 3: "dist_of s u \<le> fst x" if "u \<in> visited s" "x \<in> set (remove1 m (pq s))" for u x
    using h that(1) in_remove1D [OF that(2)] unfolding heap_ok_def by blast
  show ?thesis
    unfolding heap_ok_def using 1 2 3 by simp
qed

lemma heap_ok_pop_fresh:
  assumes d: "dom_ok K s" and h: "heap_ok K s" and ne: "pq s \<noteq> []"
    and m: "Min (set (pq s)) = (c, cur)" and nv: "cur \<notin> visited s"
  shows "heap_ok K (s\<lparr>pq := remove1 (c, cur) (pq s), visited := insert cur (visited s)\<rparr>)"
proof -
  let ?s = "s\<lparr>pq := remove1 (c, cur) (pq s), visited := insert cur (visited s)\<rparr>"
  note f = pop_min_facts [OF d h ne m nv]
  have d [simp]: "dist_of ?s = dist_of s" by (simp add: dist_of_def fun_eq_iff)
  have 1: "fst x \<noteq> Inf \<and> dist_of s (snd x) \<le> fst x"
    if "x \<in> set (remove1 (c, cur) (pq s))" for x
    using h in_remove1D [OF that] unfolding heap_ok_def by blast
  have 2: "(dist_of s v, v) \<in> set (remove1 (c, cur) (pq s))"
    if "v \<in> K" "v \<notin> visited s" "v \<noteq> cur" "dist_of s v \<noteq> Inf" for v
  proof -
    from h that have "(dist_of s v, v) \<in> set (pq s)" by (auto simp: heap_ok_def)
    with that show ?thesis by simp
  qed
  have 3: "dist_of s u \<le> fst x"
    if "u \<in> visited s \<or> u = cur" "x \<in> set (remove1 (c, cur) (pq s))" for u x
    using h that(1) f(4) in_remove1D [OF that(2)] unfolding heap_ok_def by blast
  show ?thesis
    unfolding heap_ok_def using 1 2 3 by simp
qed

lemma tree_okD:
  assumes "tree_ok K start w s"
  shows "distances s start = Some (Fin 0)" and "previous s start = Some None"
    and "visited s \<noteq> {} \<Longrightarrow> start \<in> visited s"
    and "\<And>v. Fin 0 \<le> dist_of s v"
    and "\<And>v. v \<in> K \<Longrightarrow> dist_of s v = Inf \<Longrightarrow> previous s v = Some None"
    and "\<And>v. v \<in> K \<Longrightarrow> v \<noteq> start \<Longrightarrow> dist_of s v \<noteq> Inf \<Longrightarrow>
           \<exists>u\<in>visited s. previous s v = Some (Some u) \<and> w u v \<noteq> Inf
              \<and> dist_of s v = add_cost (dist_of s u) (w u v)"
    and "\<And>v. v \<in> visited s \<Longrightarrow> dist_of s v \<noteq> Inf"
    and "\<And>v. v \<in> visited s \<Longrightarrow>
           \<exists>p. chain (previous s) v p \<and> hd p = start \<and> set p \<subseteq> visited s
                \<and> path_cost w p = dist_of s v"
  using assms unfolding tree_ok_def by simp_all

lemma tree_okI:
  assumes "distances s start = Some (Fin 0)" and "previous s start = Some None"
    and "visited s \<noteq> {} \<Longrightarrow> start \<in> visited s"
    and "\<And>v. Fin 0 \<le> dist_of s v"
    and "\<And>v. v \<in> K \<Longrightarrow> dist_of s v = Inf \<Longrightarrow> previous s v = Some None"
    and "\<And>v. v \<in> K \<Longrightarrow> v \<noteq> start \<Longrightarrow> dist_of s v \<noteq> Inf \<Longrightarrow>
           \<exists>u\<in>visited s. previous s v = Some (Some u) \<and> w u v \<noteq> Inf
              \<and> dist_of s v = add_cost (dist_of s u) (w u v)"
    and "\<And>v. v \<in> visited s \<Longrightarrow> dist_of s v \<noteq> Inf"
    and "\<And>v. v \<in> visited s \<Longrightarrow>
           \<exists>p. chain (previous s) v p \<and> hd p = start \<and> set p \<subseteq> visited s
                \<and> path_cost w p = dist_of s v"
  shows "tree_ok K start w s"
  unfolding tree_ok_def using assms by simp

lemma heap_okD:
  assumes "heap_ok K s"
  shows "\<And>x. x \<in> set (pq s) \<Longrightarrow> fst x \<noteq> Inf"
    and "\<And>x. x \<in> set (pq s) \<Longrightarrow> dist_of s (snd x) \<le> fst x"
    and "\<And>v. v \<in> K \<Longrightarrow> v \<notin> visited s \<Longrightarrow> dist_of s v \<noteq> Inf \<Longrightarrow> (dist_of s v, v) \<in> set (pq s)"
    and "\<And>u x. u \<in> visited s \<Longrightarrow> x \<in> set (pq s) \<Longrightarrow> dist_of s u \<le> fst x"
  using assms unfolding heap_ok_def by simp_all

lemma heap_okI:
  assumes "\<And>x. x \<in> set (pq s) \<Longrightarrow> fst x \<noteq> Inf \<and> dist_of s (snd x) \<le> fst x"
    and "\<And>v. v \<in> K \<Longrightarrow> v \<notin> visited s \<Longrightarrow> dist_of s v \<noteq> Inf \<Longrightarrow> (dist_of s v, v) \<in> set (pq s)"
    and "\<And>u x. u \<in> visited s \<Longrightarrow> x \<in> set (pq s) \<Longrightarrow> dist_of s u \<le> fst x"
  shows "heap_ok K s"
  unfolding heap_ok_def using assms by simp

lemma tree_ok_pq [simp]: "tree_ok K start w (s\<lparr>pq := h\<rparr>) = tree_ok K start w s"
  by (simp add: tree_ok_def dist_of_def)

lemma dist_of_start: "tree_ok K start w s \<Longrightarrow> dist_of s start = Fin 0"
  by (simp add: tree_ok_def dist_of_def)

lemma first_visit_is_start:
  assumes h: "heap_ok K s" and t: "tree_ok K start w s" and d: "dom_ok K s"
    and mem: "(c, cur) \<in> set (pq s)" and e: "visited s = {}"
  shows "cur = start"
proof (rule ccontr)
  assume ne: "cur \<noteq> start"
  from heap_okD(1,2) [OF h mem] have "dist_of s cur \<noteq> Inf" by auto
  moreover from d mem have "cur \<in> K" unfolding dom_ok_def by force
  ultimately have "\<exists>u\<in>visited s. previous s cur = Some (Some u) \<and> w u cur \<noteq> Inf
      \<and> dist_of s cur = add_cost (dist_of s u) (w u cur)"
    using ne by (intro tree_okD(6) [OF t])
  with e show False by simp
qed

lemma tree_ok_pop_fresh:
  assumes d: "dom_ok K s" and h: "heap_ok K s" and t: "tree_ok K start w s"
    and ne: "pq s \<noteq> []" and m: "Min (set (pq s)) = (c, cur)" and nv: "cur \<notin> visited s"
  shows "tree_ok K start w (s\<lparr>pq := remove1 (c, cur) (pq s), visited := insert cur (visited s)\<rparr>)"
proof -
  let ?s = "s\<lparr>pq := remove1 (c, cur) (pq s), visited := insert cur (visited s)\<rparr>"
  note f = pop_min_facts [OF d h ne m nv]
  have ds [simp]: "dist_of ?s = dist_of s" by (simp add: dist_of_def fun_eq_iff)
  from ne have "Min (set (pq s)) \<in> set (pq s)" by (intro Min_in) auto
  with m have mem: "(c, cur) \<in> set (pq s)" by simp
  have 3: "start \<in> insert cur (visited s)"
    using first_visit_is_start [OF h t d mem] tree_okD(3) [OF t] by blast
  have 6: "\<exists>u\<in>insert cur (visited s). previous s v = Some (Some u) \<and> w u v \<noteq> Inf
             \<and> dist_of s v = add_cost (dist_of s u) (w u v)"
    if "v \<in> K" "v \<noteq> start" "dist_of s v \<noteq> Inf" for v
    using tree_okD(6) [OF t that] by blast
  have old: "\<exists>p. chain (previous s) v p \<and> hd p = start \<and> set p \<subseteq> insert cur (visited s)
               \<and> path_cost w p = dist_of s v" if "v \<in> visited s" for v
    using tree_okD(8) [OF t that] by blast
  have new: "\<exists>p. chain (previous s) cur p \<and> hd p = start \<and> set p \<subseteq> insert cur (visited s)
               \<and> path_cost w p = dist_of s cur"
  proof (cases "cur = start")
    case True
    with tree_okD(1,2) [OF t] have "chain (previous s) cur [cur]" "path_cost w [cur] = dist_of s cur"
      by (auto simp: dist_of_def intro: chain_root)
    with True show ?thesis by (intro exI [of _ "[cur]"]) simp
  next
    case False
    with tree_okD(6) [OF t f(1) _ f(3)] obtain u where u: "u \<in> visited s"
      "previous s cur = Some (Some u)" "dist_of s cur = add_cost (dist_of s u) (w u cur)"
      by blast
    from tree_okD(8) [OF t u(1)] obtain p where p: "chain (previous s) u p" "hd p = start"
      "set p \<subseteq> visited s" "path_cost w p = dist_of s u"
      by blast
    from chain_last [OF p(1)] have pl: "p \<noteq> []" "last p = u" by simp_all
    have "chain (previous s) cur (p @ [cur])"
      using u(2) p(1) by (rule chain_step)
    moreover have "hd (p @ [cur]) = start" using pl p(2) by simp
    moreover have "set (p @ [cur]) \<subseteq> insert cur (visited s)" using p(3) by auto
    moreover have "path_cost w (p @ [cur]) = dist_of s cur"
      using pl p(4) u(3) by (simp add: path_cost_snoc)
    ultimately show ?thesis by blast
  qed
  have 7: "dist_of s v \<noteq> Inf \<and> (\<exists>p. chain (previous s) v p \<and> hd p = start
             \<and> set p \<subseteq> insert cur (visited s) \<and> path_cost w p = dist_of s v)"
    if "v \<in> insert cur (visited s)" for v
  proof (cases "v = cur")
    case True
    with new f(3) show ?thesis by simp
  next
    case False
    with that have v: "v \<in> visited s" by simp
    from old [OF v] tree_okD(7) [OF t v] show ?thesis by blast
  qed
  show ?thesis
  proof (rule tree_okI)
    show "distances ?s start = Some (Fin 0)" "previous ?s start = Some None"
      using tree_okD(1,2) [OF t] by simp_all
    show "start \<in> visited ?s" using 3 by simp
    show "Fin 0 \<le> dist_of ?s v" for v using tree_okD(4) [OF t] by simp
    show "previous ?s v = Some None" if "v \<in> K" "dist_of ?s v = Inf" for v
      using tree_okD(5) [OF t that(1)] that(2) by simp
    show "\<exists>u\<in>visited ?s. previous ?s v = Some (Some u) \<and> w u v \<noteq> Inf
            \<and> dist_of ?s v = add_cost (dist_of ?s u) (w u v)"
      if "v \<in> K" "v \<noteq> start" "dist_of ?s v \<noteq> Inf" for v
      using 6 [of v] that by simp
    show "dist_of ?s v \<noteq> Inf" if "v \<in> visited ?s" for v
      using 7 [of v] that by simp
    show "\<exists>p. chain (previous ?s) v p \<and> hd p = start \<and> set p \<subseteq> visited ?s
            \<and> path_cost w p = dist_of ?s v" if "v \<in> visited ?s" for v
      using 7 [of v] that by simp
  qed
qed

lemma relax_update_sel [simp]:
  "visited (relax_update s cur nb alt) = visited s"
  "dist_of (relax_update s cur nb alt) v = (if v = nb then alt else dist_of s v)"
  "previous (relax_update s cur nb alt) = (previous s)(nb \<mapsto> Some cur)"
  "set (pq (relax_update s cur nb alt)) = insert (alt, nb) (set (pq s))"
  "dom (distances (relax_update s cur nb alt)) = insert nb (dom (distances s))"
  "distances (relax_update s cur nb alt) v = (if v = nb then Some alt else distances s v)"
  by (simp_all add: relax_update_def dist_of_def heappush_def)

lemma latest_add_step [simp]: "latest (add_step tr k c n s) cur = latest s cur"
  by (simp add: latest_def)

lemma relax_update_ok:
  assumes d: "dom_ok K s" and h: "heap_ok K s" and t: "tree_ok K start w s"
    and l: "latest s cur" and nv: "nb \<notin> visited s" and nbK: "nb \<in> K"
    and wf: "w cur nb \<noteq> Inf" and wn: "Fin 0 \<le> w cur nb"
    and alt: "alt = add_cost (dist_of s cur) (w cur nb)" and less: "alt < dist_of s nb"
  shows "dom_ok K (relax_update s cur nb alt)"
    and "heap_ok K (relax_update s cur nb alt)"
    and "tree_ok K start w (relax_update s cur nb alt)"
    and "latest (relax_update s cur nb alt) cur"
proof -
  let ?s = "relax_update s cur nb alt"
  from l have cv: "cur \<in> visited s" and lat: "\<And>u. u \<in> visited s \<Longrightarrow> dist_of s u \<le> dist_of s cur"
    by (auto simp: latest_def)
  from cv nv have cn: "cur \<noteq> nb" by auto
  from less have af: "alt \<noteq> Inf" by (cases alt) auto
  note nonneg = tree_okD(4) [OF t]
  from alt wn have cur_le: "dist_of s cur \<le> alt" by (simp add: le_add_cost)
  from tree_okD(3) [OF t] cv have sv: "start \<in> visited s" by blast
  with nv have ns: "nb \<noteq> start" by auto
  show "dom_ok K ?s"
    using d nbK unfolding dom_ok_def by auto
  show "latest ?s cur"
    using l nv cn unfolding latest_def by auto
  have h1: "fst x \<noteq> Inf \<and> dist_of ?s (snd x) \<le> fst x" if "x \<in> set (pq ?s)" for x
  proof (cases "x = (alt, nb)")
    case True
    with af show ?thesis by simp
  next
    case False
    with that have "x \<in> set (pq s)" by simp
    from heap_okD(1,2) [OF h this] have "fst x \<noteq> Inf" "dist_of s (snd x) \<le> fst x" .
    with less show ?thesis by auto
  qed
  have h2: "(dist_of ?s v, v) \<in> set (pq ?s)"
    if "v \<in> K" "v \<notin> visited ?s" "dist_of ?s v \<noteq> Inf" for v
    using heap_okD(3) [OF h, of v] that by auto
  have h3: "dist_of ?s u \<le> fst x" if "u \<in> visited ?s" "x \<in> set (pq ?s)" for u x
  proof (cases "x = (alt, nb)")
    case True
    from that nv have "dist_of ?s u = dist_of s u" by auto
    with lat [of u] that cur_le True show ?thesis by auto
  next
    case False
    with that have "x \<in> set (pq s)" "u \<in> visited s" by simp_all
    from heap_okD(4) [OF h this(2,1)] have "dist_of s u \<le> fst x" .
    with that nv show ?thesis by auto
  qed
  show "heap_ok K ?s"
    using h1 h2 h3 by (intro heap_okI)
  have t4: "Fin 0 \<le> dist_of ?s v" for v
    using nonneg alt wn by (auto intro: add_cost_nonneg)
  have t5: "previous ?s v = Some None" if "v \<in> K" "dist_of ?s v = Inf" for v
    using tree_okD(5) [OF t, of v] that af by (auto split: if_splits)
  have t6: "\<exists>u\<in>visited ?s. previous ?s v = Some (Some u) \<and> w u v \<noteq> Inf
              \<and> dist_of ?s v = add_cost (dist_of ?s u) (w u v)"
    if "v \<in> K" "v \<noteq> start" "dist_of ?s v \<noteq> Inf" for v
  proof (cases "v = nb")
    case True
    with cv cn wf alt show ?thesis by (intro bexI [of _ cur]) auto
  next
    case False
    with tree_okD(6) [OF t, of v] that obtain u where "u \<in> visited s"
      "previous s v = Some (Some u)" "w u v \<noteq> Inf"
      "dist_of s v = add_cost (dist_of s u) (w u v)"
      by auto
    with False nv show ?thesis by (intro bexI [of _ u]) auto
  qed
  have t7: "dist_of ?s v \<noteq> Inf \<and> (\<exists>p. chain (previous ?s) v p \<and> hd p = start
              \<and> set p \<subseteq> visited ?s \<and> path_cost w p = dist_of ?s v)"
    if "v \<in> visited ?s" for v
  proof -
    from that have v: "v \<in> visited s" by simp
    with tree_okD(7,8) [OF t] obtain p where p: "dist_of s v \<noteq> Inf"
      "chain (previous s) v p" "hd p = start"
      "set p \<subseteq> visited s" "path_cost w p = dist_of s v"
      by blast
    from p(4) nv have "nb \<notin> set p" by auto
    from chain_update [OF p(2) this] have "chain (previous ?s) v p" by simp
    with p v nv show ?thesis by auto
  qed
  have t1: "distances ?s start = Some (Fin 0)" "previous ?s start = Some None"
    "start \<in> visited ?s"
    using tree_okD(1,2) [OF t] ns sv by auto
  show "tree_ok K start w ?s"
    using t1 t4 t5 t6 t7 by (intro tree_okI) blast+
qed

lemma relax_update_relaxed:
  assumes "relaxed w s u" and "u \<in> visited s" and "nb \<notin> visited s" and "alt < dist_of s nb"
  shows "relaxed w (relax_update s cur nb alt) u"
  unfolding relaxed_def
proof (intro allI impI)
  fix v assume "w u v \<noteq> Inf"
  with assms(1) have "dist_of s v \<le> add_cost (dist_of s u) (w u v)" by (simp add: relaxed_def)
  moreover from assms(2,3) have "u \<noteq> nb" by auto
  ultimately show "dist_of (relax_update s cur nb alt) v
                     \<le> add_cost (dist_of (relax_update s cur nb alt) u) (w u v)"
    using assms(4) by auto
qed

subsection \<open>The relaxation loop\<close>

lemma relax_neighbors_Cons:
  "relax_neighbors pf cur t em tr (nb # ns) s =
     (if nb \<in> visited s \<or> get_effective_weight pf cur nb t em = Inf
      then relax_neighbors pf cur t em tr ns s
      else case distances s cur of
             None \<Rightarrow> Inl KeyError
           | Some dc \<Rightarrow>
              (case distances s nb of
                 None \<Rightarrow> Inl KeyError
               | Some dn \<Rightarrow>
                  if add_cost dc (get_effective_weight pf cur nb t em) < dn
                  then relax_neighbors pf cur t em tr ns
                         (add_step tr StepRelax (Some cur) (Some nb)
                            (relax_update s cur nb
                               (add_cost dc (get_effective_weight pf cur nb t em))))
                  else relax_neighbors pf cur t em tr ns s))"
  by (simp add: Let_def relax_update_def split: option.splits)

declare relax_neighbors.simps(2) [simp del]

lemma dist_of_Some: "distances s v = Some c \<Longrightarrow> dist_of s v = c"
  by (simp add: dist_of_def)

lemma dom_ok_distances: "dom_ok K s \<Longrightarrow> v \<in> K \<Longrightarrow> \<exists>c. distances s v = Some c"
  unfolding dom_ok_def by blast

lemma relax_neighbors_ok:
  assumes wok: "weights_ok K w"
    and wdef: "\<And>v. get_effective_weight pf cur v t em = w cur v"
    and inv: "dom_ok K s" "heap_ok K s" "tree_ok K start w s" "latest s cur"
  shows "\<exists>s'. relax_neighbors pf cur t em tr ns s = Inr s'
           \<and> dom_ok K s' \<and> heap_ok K s' \<and> tree_ok K start w s' \<and> latest s' cur
           \<and> visited s' = visited s
           \<and> (\<forall>v. dist_of s' v \<le> dist_of s v)
           \<and> (\<forall>u\<in>visited s. dist_of s' u = dist_of s u)
           \<and> (\<forall>u\<in>visited s. relaxed w s u \<longrightarrow> relaxed w s' u)
           \<and> (\<forall>v\<in>set ns. w cur v \<noteq> Inf \<longrightarrow> dist_of s' v \<le> add_cost (dist_of s cur) (w cur v))"
  using inv
proof (induction ns arbitrary: s)
  case Nil
  then show ?case by simp
next
  case (Cons nb ns)
  note inv = Cons.prems
  from inv(4) have cv: "cur \<in> visited s"
    and lat: "\<And>u. u \<in> visited s \<Longrightarrow> dist_of s u \<le> dist_of s cur"
    by (auto simp: latest_def)
  have wpos: "Fin 0 \<le> w cur v" if "w cur v \<noteq> Inf" for v
    using wok that unfolding weights_ok_def by blast
  have skip: ?case
    if eq: "relax_neighbors pf cur t em tr (nb # ns) s = relax_neighbors pf cur t em tr ns s"
      and nb: "w cur nb \<noteq> Inf \<Longrightarrow> dist_of s nb \<le> add_cost (dist_of s cur) (w cur nb)"
  proof -
    from Cons.IH [OF inv] obtain s' where s':
      "relax_neighbors pf cur t em tr ns s = Inr s'"
      "dom_ok K s'" "heap_ok K s'" "tree_ok K start w s'" "latest s' cur"
      "visited s' = visited s" "\<forall>v. dist_of s' v \<le> dist_of s v"
      "\<forall>u\<in>visited s. dist_of s' u = dist_of s u"
      "\<forall>u\<in>visited s. relaxed w s u \<longrightarrow> relaxed w s' u"
      "\<forall>v\<in>set ns. w cur v \<noteq> Inf \<longrightarrow> dist_of s' v \<le> add_cost (dist_of s cur) (w cur v)"
      by blast
    have "dist_of s' nb \<le> add_cost (dist_of s cur) (w cur nb)" if "w cur nb \<noteq> Inf"
      using nb [OF that] s'(7) order_trans by blast
    with s' eq show ?thesis by auto
  qed
  show ?case
  proof (cases "nb \<in> visited s \<or> w cur nb = Inf")
    case True
    then have eq: "relax_neighbors pf cur t em tr (nb # ns) s = relax_neighbors pf cur t em tr ns s"
      by (simp add: relax_neighbors_Cons wdef)
    have "dist_of s nb \<le> add_cost (dist_of s cur) (w cur nb)" if "w cur nb \<noteq> Inf"
    proof -
      from True that have "nb \<in> visited s" by simp
      from lat [OF this] le_add_cost [OF wpos [OF that], of "dist_of s cur"]
      show ?thesis by (rule order_trans)
    qed
    with eq show ?thesis by (rule skip)
  next
    case False
    then have nv: "nb \<notin> visited s" and wf: "w cur nb \<noteq> Inf" by simp_all
    from wok wf have nbK: "nb \<in> K" and curK: "cur \<in> K" unfolding weights_ok_def by blast+
    from dom_ok_distances [OF inv(1) curK] obtain dc where dc: "distances s cur = Some dc" ..
    from dom_ok_distances [OF inv(1) nbK] obtain dn where dn: "distances s nb = Some dn" ..
    let ?alt = "add_cost dc (w cur nb)"
    have alt: "?alt = add_cost (dist_of s cur) (w cur nb)"
      using dc by (simp add: dist_of_Some)
    show ?thesis
    proof (cases "?alt < dn")
      case less: True
      let ?s1 = "add_step tr StepRelax (Some cur) (Some nb) (relax_update s cur nb ?alt)"
      have eq: "relax_neighbors pf cur t em tr (nb # ns) s = relax_neighbors pf cur t em tr ns ?s1"
        using False dc dn less by (simp add: relax_neighbors_Cons wdef)
      from less dn have less': "?alt < dist_of s nb" by (simp add: dist_of_Some)
      note upd = relax_update_ok [OF inv nv nbK wf wpos [OF wf] alt less']
      have inv1: "dom_ok K ?s1" "heap_ok K ?s1" "tree_ok K start w ?s1" "latest ?s1 cur"
        using upd by simp_all
      from Cons.IH [OF inv1] obtain s' where s':
        "relax_neighbors pf cur t em tr ns ?s1 = Inr s'"
        "dom_ok K s'" "heap_ok K s'" "tree_ok K start w s'" "latest s' cur"
        "visited s' = visited ?s1" "\<forall>v. dist_of s' v \<le> dist_of ?s1 v"
        "\<forall>u\<in>visited ?s1. dist_of s' u = dist_of ?s1 u"
        "\<forall>u\<in>visited ?s1. relaxed w ?s1 u \<longrightarrow> relaxed w s' u"
        "\<forall>v\<in>set ns. w cur v \<noteq> Inf \<longrightarrow> dist_of s' v \<le> add_cost (dist_of ?s1 cur) (w cur v)"
        by blast
      from cv nv have cn: "cur \<noteq> nb" by auto
      have d1: "dist_of ?s1 v \<le> dist_of s v" for v
        using less' by auto
      have 7: "dist_of s' v \<le> dist_of s v" for v
        using s'(7) d1 order_trans by blast
      have 8: "dist_of s' u = dist_of s u" if "u \<in> visited s" for u
        using s'(8) that nv by auto
      have 9: "relaxed w s' u" if "u \<in> visited s" "relaxed w s u" for u
        using s'(9) that relax_update_relaxed [OF that(2,1) nv less'] by simp
      have 10: "dist_of s' v \<le> add_cost (dist_of s cur) (w cur v)"
        if "v \<in> set (nb # ns)" "w cur v \<noteq> Inf" for v
      proof (cases "v = nb")
        case True
        have "dist_of s' nb \<le> dist_of ?s1 nb" using s'(7) by blast
        also have "\<dots> = add_cost (dist_of s cur) (w cur nb)" using alt by simp
        finally show ?thesis using True by simp
      next
        case False
        with that have "v \<in> set ns" by simp
        with s'(10) that(2) cn show ?thesis by simp
      qed
      from s'(1-6) eq 7 8 9 10 show ?thesis by auto
    next
      case ge: False
      have eq: "relax_neighbors pf cur t em tr (nb # ns) s = relax_neighbors pf cur t em tr ns s"
        using False dc dn ge by (simp add: relax_neighbors_Cons wdef)
      have "dist_of s nb \<le> add_cost (dist_of s cur) (w cur nb)"
        using ge dn alt by (simp add: dist_of_Some)
      with eq show ?thesis by (intro skip)
    qed
  qed
qed

subsection \<open>The main loop\<close>

lemma weights_ok_edge_cost:
  "wf_graph (graph pf) \<Longrightarrow> weights_ok (set (get_all_nodes (graph pf))) (edge_cost pf t em)"
  unfolding weights_ok_def edge_cost_def using weight_ok by blast

lemma dist_of_upd [simp]:
  "dist_of (s\<lparr>pq := h\<rparr>) = dist_of s"
  "dist_of (s\<lparr>visited := V\<rparr>) = dist_of s"
  by (simp_all add: dist_of_def fun_eq_iff)

lemma relaxed_upd [simp]:
  "relaxed w (s\<lparr>pq := h\<rparr>) u = relaxed w s u"
  "relaxed w (s\<lparr>visited := V\<rparr>) u = relaxed w s u"
  by (simp_all add: relaxed_def)

lemma heappop_eq: "heappop h = (Min (set h), remove1 (Min (set h)) h)"
  by (simp add: heappop_def Let_def)

lemma loop_body_ok:
  assumes wok: "weights_ok K (edge_cost pf t em)"
    and K: "K = set (get_all_nodes (graph pf))"
    and inv: "loop_inv K start (edge_cost pf t em) end_node s"
    and ne: "pq s \<noteq> []"
  shows "(\<exists>s'. loop_body pf end_node t em tr s = Inr s'
             \<and> loop_inv K start (edge_cost pf t em) end_node s')
       \<or> (\<exists>s'. loop_body pf end_node t em tr s = Inl (Inr s')
             \<and> end_node \<in> visited s' \<and> search_done K start (edge_cost pf t em) end_node s')"
proof -
  let ?w = "edge_cost pf t em"
  obtain c cur where m: "Min (set (pq s)) = (c, cur)" by (cases "Min (set (pq s))")
  from inv have d: "dom_ok K s" and h: "heap_ok K s" and tr: "tree_ok K start ?w s"
    and rel: "\<And>u. u \<in> visited s \<Longrightarrow> relaxed ?w s u" and endv: "end_node \<notin> visited s"
    by (auto simp: loop_inv_def)
  let ?s1 = "s\<lparr>pq := remove1 (c, cur) (pq s)\<rparr>"
  show ?thesis
  proof (cases "cur \<in> visited s")
    case True
    have "loop_body pf end_node t em tr s = Inr ?s1"
      using True m by (simp add: loop_body_def heappop_eq)
    moreover have "loop_inv K start ?w end_node ?s1"
      unfolding loop_inv_def
      using dom_ok_pop(1) [OF d] heap_ok_pop_stale [OF h, of "(c, cur)"] True tr rel endv
      by simp
    ultimately show ?thesis by blast
  next
    case False
    let ?s2 = "s\<lparr>pq := remove1 (c, cur) (pq s), visited := insert cur (visited s)\<rparr>"
    let ?s2' = "add_step tr StepVisit (Some cur) None ?s2"
    note f = pop_min_facts [OF d h ne m False]
    have inv2: "dom_ok K ?s2" "heap_ok K ?s2" "tree_ok K start ?w ?s2"
      using dom_ok_pop(2) [OF d f(1)] heap_ok_pop_fresh [OF d h ne m False]
        tree_ok_pop_fresh [OF d h tr ne m False] by simp_all
    have lat2: "latest ?s2 cur"
      unfolding latest_def using f(5) by auto
    have rel2: "relaxed ?w ?s2 u" if "u \<in> visited s" for u
      using rel [OF that] by simp
    show ?thesis
    proof (cases "cur = end_node")
      case True
      let ?s3 = "add_step tr StepFound (Some cur) None ?s2'"
      have "loop_body pf end_node t em tr s = Inl (Inr ?s3)"
        using False True m by (simp add: loop_body_def heappop_eq Let_def)
      moreover have "end_node \<in> visited ?s3" using True by simp
      moreover have "search_done K start ?w end_node ?s3"
      proof -
        have "visited ?s3 - {end_node} = visited s" using True endv by auto
        moreover have "dist_of ?s3 end_node \<le> dist_of ?s3 v" if "v \<notin> visited s" for v
          using f(6) [OF that] True by simp
        ultimately show ?thesis
          unfolding search_done_def using inv2(1,3) rel2 True by simp
      qed
      ultimately show ?thesis by blast
    next
      case ne_end: False
      from f(1) K obtain node where node: "map_of (nodes (graph pf)) cur = Some node"
        by (cases "map_of (nodes (graph pf)) cur")
           (auto simp: get_all_nodes_def map_of_eq_None_iff)
      have wdef: "get_effective_weight pf cur v t em = ?w cur v" for v
        by (simp add: edge_cost_def)
      have inv2': "dom_ok K ?s2'" "heap_ok K ?s2'" "tree_ok K start ?w ?s2'" "latest ?s2' cur"
        using inv2 lat2 by simp_all
      from relax_neighbors_ok [OF wok wdef inv2', of tr "map fst (connections node)"]
      obtain s' where s':
        "relax_neighbors pf cur t em tr (map fst (connections node)) ?s2' = Inr s'"
        "dom_ok K s'" "heap_ok K s'" "tree_ok K start ?w s'"
        "visited s' = visited ?s2'" "\<forall>u\<in>visited ?s2'. dist_of s' u = dist_of ?s2' u"
        "\<forall>u\<in>visited ?s2'. relaxed ?w ?s2' u \<longrightarrow> relaxed ?w s' u"
        "\<forall>v\<in>set (map fst (connections node)). ?w cur v \<noteq> Inf \<longrightarrow>
            dist_of s' v \<le> add_cost (dist_of ?s2' cur) (?w cur v)"
        by blast
      have body: "loop_body pf end_node t em tr s = Inr s'"
        using False ne_end m node s'(1) by (simp add: loop_body_def heappop_eq Let_def)
      have vis: "visited s' = insert cur (visited s)" using s'(5) by simp
      have relcur: "relaxed ?w s' cur"
        unfolding relaxed_def
      proof (intro allI impI)
        fix v assume fin: "?w cur v \<noteq> Inf"
        then have "get_effective_weight pf cur v t em \<noteq> Inf" by (simp add: edge_cost_def)
        from weight_finiteD [OF this] node obtain cn where "map_of (connections node) v = Some cn"
          by auto
        then have "v \<in> set (map fst (connections node))"
          by (auto dest: map_of_SomeD intro: rev_image_eqI)
        with s'(8) fin have "dist_of s' v \<le> add_cost (dist_of ?s2' cur) (?w cur v)" by blast
        moreover have "dist_of s' cur = dist_of ?s2' cur" using s'(6) by simp
        ultimately show "dist_of s' v \<le> add_cost (dist_of s' cur) (?w cur v)" by simp
      qed
      have relall: "relaxed ?w s' u" if "u \<in> visited s'" for u
      proof (cases "u = cur")
        case True
        with relcur show ?thesis by simp
      next
        case False
        with that vis have u: "u \<in> visited s" by simp
        with s'(7) rel2 [OF u] show ?thesis by simp
      qed
      have "loop_inv K start ?w end_node s'"
        unfolding loop_inv_def using s'(2-4) relall vis endv ne_end by auto
      with body show ?thesis by blast
    qed
  qed
qed

lemma dijkstra_loop_ok:
  assumes wok: "weights_ok K (edge_cost pf t em)"
    and K: "K = set (get_all_nodes (graph pf))"
    and inv: "loop_inv K start (edge_cost pf t em) end_node s"
  shows "\<exists>s'. dijkstra_loop pf end_node t em tr s = Inr s'
           \<and> search_done K start (edge_cost pf t em) end_node s'"
  using assms
proof (induction pf end_node t em tr s rule: dijkstra_loop.induct)
  case (1 pf end_node t em tr s)
  note wok = "1.prems"(1) and K = "1.prems"(2) and inv = "1.prems"(3)
  show ?case
  proof (cases "pq s = []")
    case True
    from inv have d: "dom_ok K s" and h: "heap_ok K s"
      and rest: "tree_ok K start (edge_cost pf t em) s"
        "\<forall>u\<in>visited s. relaxed (edge_cost pf t em) s u" "end_node \<notin> visited s"
      by (auto simp: loop_inv_def)
    have inf: "dist_of s v = Inf" if "v \<notin> visited s" for v
    proof (cases "v \<in> K")
      case True
      with heap_okD(3) [OF h True that] \<open>pq s = []\<close> show ?thesis by auto
    next
      case False
      then show ?thesis by (rule dist_of_outside [OF d])
    qed
    have "search_done K start (edge_cost pf t em) end_node s"
      unfolding search_done_def using d rest inf by auto
    with True show ?thesis
      by (subst dijkstra_loop.simps) simp
  next
    case False
    from loop_body_ok [OF wok K inv False, of tr]
    show ?thesis
    proof (elim disjE exE conjE)
      fix s' assume b: "loop_body pf end_node t em tr s = Inr s'"
        and i: "loop_inv K start (edge_cost pf t em) end_node s'"
      from "1.IH" [OF False b wok K i] b False show ?thesis
        by (subst dijkstra_loop.simps) simp
    next
      fix s' assume b: "loop_body pf end_node t em tr s = Inl (Inr s')"
        and "search_done K start (edge_cost pf t em) end_node s'"
      with False show ?thesis
        by (subst dijkstra_loop.simps) simp
    qed
  qed
qed

subsection \<open>The result of the search\<close>

lemma map_of_const:
  "map_of (map (\<lambda>n. (fst n, c)) xs) v = (if v \<in> fst ` set xs then Some c else None)"
  by (induction xs) auto

lemma init_search_ok:
  assumes K: "K = set (get_all_nodes (graph pf))" and st: "start \<in> K"
  shows "loop_inv K start w end_node (init_search pf start tr)"
proof -
  let ?s = "\<lparr>distances = (map_of (map (\<lambda>node. (fst node, Inf)) (nodes (graph pf))))(start \<mapsto> Fin 0),
             previous = map_of (map (\<lambda>node. (fst node, None)) (nodes (graph pf))),
             pq = [(Fin 0, start)], visited = {}, steps = []\<rparr>"
  have K': "K = fst ` set (nodes (graph pf))" using K by (simp add: get_all_nodes_def)
  have dist: "dist_of ?s v = (if v = start then Fin 0 else Inf)" for v
    by (simp add: dist_of_def map_of_const)
  have prev: "previous ?s v = (if v \<in> K then Some None else None)" for v
    by (simp add: map_of_const K')
  have dom1: "dom (map_of (map (\<lambda>node. (fst node, c)) (nodes (graph pf)))) = K" for c :: 'c
    unfolding K' by (auto simp: map_of_const dom_def)
  have "dom_ok K ?s"
    unfolding dom_ok_def using st by (simp add: dom1 insert_absorb)
  moreover have "heap_ok K ?s"
    by (rule heap_okI) (auto simp: dist split: if_splits)
  moreover have "tree_ok K start w ?s"
    using st unfolding K'
    by (intro tree_okI) (auto simp: dist map_of_const split: if_splits)
  ultimately show ?thesis
    by (simp add: loop_inv_def init_search_def)
qed

text \<open>No path from the start is cheaper than the distances that the search has found.\<close>

lemma lower_bound:
  assumes rel: "\<And>u. u \<in> P \<Longrightarrow> relaxed w s u"
    and out: "\<And>v. v \<notin> P \<Longrightarrow> B \<le> dist_of s v"
    and st: "dist_of s start = Fin 0"
    and nonneg: "\<And>u v. Fin 0 \<le> w u v"
    and p: "p \<noteq> []" "hd p = start"
  shows "dist_of s (last p) \<le> path_cost w p \<or> B \<le> path_cost w p"
  using p
proof (induction p rule: rev_nonempty_induct)
  case (single x)
  with st show ?case by simp
next
  case (snoc x xs)
  let ?u = "last xs"
  from snoc have IH: "dist_of s ?u \<le> path_cost w xs \<or> B \<le> path_cost w xs" by simp
  have cost: "path_cost w (xs @ [x]) = add_cost (path_cost w xs) (w ?u x)"
    using snoc(1) by (rule path_cost_snoc)
  have up: "path_cost w xs \<le> path_cost w (xs @ [x])"
    unfolding cost by (rule le_add_cost [OF nonneg])
  have B: "B \<le> path_cost w (xs @ [x])" if "B \<le> path_cost w xs"
    using that up by (rule order_trans)
  show ?case
  proof (cases "?u \<in> P \<and> w ?u x \<noteq> Inf")
    case True
    with rel have r: "dist_of s x \<le> add_cost (dist_of s ?u) (w ?u x)"
      unfolding relaxed_def by blast
    from IH show ?thesis
    proof
      assume "dist_of s ?u \<le> path_cost w xs"
      then have "add_cost (dist_of s ?u) (w ?u x) \<le> add_cost (path_cost w xs) (w ?u x)"
        by (intro add_cost_mono) simp_all
      with r cost show ?thesis by (auto intro: order_trans)
    next
      assume "B \<le> path_cost w xs"
      from B [OF this] show ?thesis by simp
    qed
  next
    case False
    then consider "w ?u x = Inf" | "?u \<notin> P" by blast
    then show ?thesis
    proof cases
      case 1
      then show ?thesis by (simp add: cost)
    next
      case 2
      from out [OF 2] IH have "B \<le> path_cost w xs" by (auto intro: order_trans)
      from B [OF this] show ?thesis by simp
    qed
  qed
qed

lemma search_done_lower_bound:
  assumes wok: "weights_ok K w" and sd: "search_done K start w end_node s"
    and p: "p \<noteq> []" "hd p = start" "last p = end_node"
  shows "dist_of s end_node \<le> path_cost w p"
proof -
  from sd have t: "tree_ok K start w s"
    and rel: "\<And>u. u \<in> visited s - {end_node} \<Longrightarrow> relaxed w s u"
    and out: "\<And>v. v \<notin> visited s - {end_node} \<Longrightarrow> dist_of s end_node \<le> dist_of s v"
    unfolding search_done_def by blast+
  have nonneg: "Fin 0 \<le> w u v" for u v
    using wok unfolding weights_ok_def by (cases "w u v = Inf") auto
  from lower_bound [OF rel out dist_of_start [OF t] nonneg p(1,2)] p(3)
  show ?thesis by auto
qed

lemma dijkstra_correct:
  assumes wf: "wf_graph (graph pf)"
    and st: "start \<in> set (get_all_nodes (graph pf))"
    and en: "end_node \<in> set (get_all_nodes (graph pf))"
  shows "\<exists>r. dijkstra pf start end_node t em tr = Some (Inr r)
           \<and> (\<forall>p. path_from_to start end_node p \<longrightarrow>
                  result_distance r \<le> path_cost (edge_cost pf t em) p)
           \<and> (end_node \<in> visited_nodes r \<longrightarrow>
                  result_distance r \<noteq> Inf \<and> path_from_to start end_node (result_path r)
                  \<and> path_cost (edge_cost pf t em) (result_path r) = result_distance r)
           \<and> (end_node \<notin> visited_nodes r \<longrightarrow>
                  result_distance r = Inf \<and> result_path r = [end_node])
           \<and> Fin 0 \<le> result_distance r"
proof -
  let ?K = "set (get_all_nodes (graph pf))"
  let ?w = "edge_cost pf t em"
  note wok = weights_ok_edge_cost [OF wf, of t em]
  from dijkstra_loop_ok [OF wok refl init_search_ok [OF refl st], of end_node tr]
  obtain s where loop: "dijkstra_loop pf end_node t em tr (init_search pf start tr) = Inr s"
    and sd: "search_done ?K start ?w end_node s"
    by blast
  from sd have d: "dom_ok ?K s" and tok: "tree_ok ?K start ?w s"
    and unv: "end_node \<notin> visited s \<Longrightarrow> dist_of s end_node = Inf"
    unfolding search_done_def by blast+
  from dom_ok_distances [OF d en] obtain c where c: "distances s end_node = Some c" ..
  then have dc: "dist_of s end_node = c" by (rule dist_of_Some)
  have "\<exists>p. chain (previous s) end_node p
          \<and> (end_node \<in> visited s \<longrightarrow> c \<noteq> Inf \<and> hd p = start \<and> path_cost ?w p = c)
          \<and> (end_node \<notin> visited s \<longrightarrow> c = Inf \<and> p = [end_node])"
  proof (cases "end_node \<in> visited s")
    case True
    from tree_okD(7,8) [OF tok True] dc True show ?thesis by auto
  next
    case False
    from unv [OF False] dc have "c = Inf" by simp
    moreover from tree_okD(5) [OF tok en] unv [OF False]
    have "chain (previous s) end_node [end_node]" by (auto intro: chain_root)
    ultimately show ?thesis using False by blast
  qed
  then obtain p where ch: "chain (previous s) end_node p"
    and vis: "end_node \<in> visited s \<Longrightarrow> c \<noteq> Inf \<and> hd p = start \<and> path_cost ?w p = c"
    and nvis: "end_node \<notin> visited s \<Longrightarrow> c = Inf \<and> p = [end_node]"
    by blast
  from chain_reconstruct [OF ch, of "[]"]
  have rec: "reconstruct (previous s) (Some end_node) [] = Some (Inr p)" by simp
  let ?r = "\<lparr>result_path = p, result_distance = c, result_steps = steps s,
             visited_nodes = visited s\<rparr>"
  have res: "dijkstra pf start end_node t em tr = Some (Inr ?r)"
    by (simp add: dijkstra_def loop rec c)
  have lb: "c \<le> path_cost ?w q" if "path_from_to start end_node q" for q
    using search_done_lower_bound [OF wok sd, of q] that dc
    by (simp add: path_from_to_def)
  have nn: "Fin 0 \<le> c" using tree_okD(4) [OF tok, of end_node] dc by simp
  from chain_last [OF ch] have pl: "p \<noteq> []" "last p = end_node" by simp_all
  show ?thesis
    using res lb vis nvis nn pl by (intro exI [of _ ?r]) (auto simp: path_from_to_def)
qed

subsection \<open>Searches on the campus\<close>

lemma wf_campus_graph: "wf_graph campus_graph"
  by code_simp

lemma campus_nodes:
  "set (get_all_nodes campus_graph) =
     {''Main Gate'', ''Library'', ''Computer Lab'', ''Lecture Hall'', ''Admin Block'',
      ''Cafeteria'', ''Sports Complex'', ''Auditorium'', ''Hostel''}"
  by (simp add: get_all_nodes_def campus_graph_def initialize_campus_graph_def)

lemma graph_simps [simp]:
  "graph (new_PathFinder g) = g"
  "graph (block_path pf a b) = graph pf"
  "graph (unblock_path pf a b) = graph pf"
  "graph (add_hazard_zone pf n) = graph pf"
  by (simp_all add: new_PathFinder_def block_path_def unblock_path_def add_hazard_zone_def)



lemma dijkstra_same_node:
  assumes "start \<in> set (get_all_nodes (graph pf))"
  shows "dijkstra pf start start t em tr
           = Some (Inr \<lparr>result_path = [start], result_distance = Fin 0,
                        result_steps = steps (add_step tr StepFound (Some start) None
                           (add_step tr StepVisit (Some start) None
                              ((init_search pf start tr)\<lparr>pq := [], visited := {start}\<rparr>))),
                        visited_nodes = {start}\<rparr>)"
proof -
  let ?i = "init_search pf start tr"
  let ?s = "add_step tr StepFound (Some start) None
              (add_step tr StepVisit (Some start) None (?i\<lparr>pq := [], visited := {start}\<rparr>))"
  have s0a: "pq ?i = [(Fin 0, start)]"
    by (simp add: init_search_def)
  have s0b: "visited ?i = {}"
    by (simp add: init_search_def)
  have s0c: "distances ?i start = Some (Fin 0)"
    by (simp add: init_search_def)
  have s0d: "previous ?i start = Some None"
    using assms by (simp add: init_search_def map_of_const get_all_nodes_def)
  note s0 = s0a s0b s0c s0d
  have body: "loop_body pf start t em tr ?i = Inl (Inr ?s)"
    by (simp add: loop_body_def heappop_eq s0 Let_def)
  have loop: "dijkstra_loop pf start t em tr ?i = Inr ?s"
    by (subst dijkstra_loop.simps) (simp add: body s0)
  have rec: "reconstruct (previous ?s) (Some start) [] = Some (Inr [start])"
    using chain_reconstruct [OF chain_root, of "previous ?s" start "[]"] s0 by simp
  show ?thesis
    using rec by (simp add: dijkstra_def loop s0)
qed

subsection \<open>The exit finder\<close>

lemma exit_loop_eq:
  assumes "\<And>e. e \<in> set exits \<Longrightarrow> \<exists>r. dijkstra pf start e t True False = Some (Inr r)"
  shows "exit_loop pf start t exits m n
           = Some (Inr (choose_exit (map (\<lambda>e. (e, exit_distance pf start t e)) exits) m n))"
  using assms
proof (induction exits arbitrary: m n)
  case Nil
  then show ?case by simp
next
  case (Cons e exits)
  from Cons.prems [of e] obtain r where r: "dijkstra pf start e t True False = Some (Inr r)"
    by auto
  then have d: "exit_distance pf start t e = result_distance r"
    by (simp add: exit_distance_def)
  have IH: "exit_loop pf start t exits m' n'
              = Some (Inr (choose_exit (map (\<lambda>e. (e, exit_distance pf start t e)) exits) m' n'))"
    for m' n'
    using Cons.prems by (intro Cons.IH) simp
  show ?case
    by (simp add: r d IH)
qed

lemma choose_exit_le:
  "snd (choose_exit xs m n) \<le> m \<and> (\<forall>x\<in>set xs. snd (choose_exit xs m n) \<le> snd x)"
proof (induction xs m n rule: choose_exit.induct)
  case (1 m n)
  then show ?case by simp
next
  case (2 e d rest m n)
  show ?case
  proof (cases "d < m")
    case True
    with 2 show ?thesis by (auto intro: order_trans less_imp_le)
  next
    case False
    with 2 have "snd (choose_exit rest m n) \<le> m" by simp
    with False 2 show ?thesis by (auto intro: order_trans)
  qed
qed

lemma choose_exit_first:
  "choose_exit xs m n = (n, m)
   \<or> (\<exists>i<length xs. choose_exit xs m n = (Some (fst (xs ! i)), snd (xs ! i))
         \<and> snd (xs ! i) < m \<and> (\<forall>j<i. snd (xs ! i) < snd (xs ! j)))"
proof (induction xs m n rule: choose_exit.induct)
  case (1 m n)
  then show ?case by simp
next
  case (2 e d rest m n)
  let ?xs = "(e, d) # rest"
  have shift: "\<exists>i<length ?xs. choose_exit ?xs m n = (Some (fst (?xs ! i)), snd (?xs ! i))
                 \<and> snd (?xs ! i) < m \<and> (\<forall>j<i. snd (?xs ! i) < snd (?xs ! j))"
    if i: "i < length rest" and eq: "choose_exit ?xs m n = (Some (fst (rest ! i)), snd (rest ! i))"
      and lm: "snd (rest ! i) < m" and ld: "snd (rest ! i) < d"
      and prev: "\<forall>j<i. snd (rest ! i) < snd (rest ! j)" for i
  proof (intro exI [of _ "Suc i"] conjI allI impI)
    show "Suc i < length ?xs" using i by simp
    show "choose_exit ?xs m n = (Some (fst (?xs ! Suc i)), snd (?xs ! Suc i))" using eq by simp
    show "snd (?xs ! Suc i) < m" using lm by simp
    fix j assume "j < Suc i"
    then show "snd (?xs ! Suc i) < snd (?xs ! j)"
      using ld prev by (cases j) auto
  qed
  show ?case
  proof (cases "d < m")
    case True
    with 2 consider "choose_exit rest d (Some e) = (Some e, d)"
      | i where "i < length rest"
          "choose_exit rest d (Some e) = (Some (fst (rest ! i)), snd (rest ! i))"
          "snd (rest ! i) < d" "\<forall>j<i. snd (rest ! i) < snd (rest ! j)"
      by blast
    then show ?thesis
    proof cases
      case 1
      with True have "choose_exit ?xs m n = (Some (fst (?xs ! 0)), snd (?xs ! 0))"
        "snd (?xs ! 0) < m" by simp_all
      then show ?thesis by (intro disjI2 exI [of _ 0]) simp
    next
      case (2 i)
      from 2(3) True have "snd (rest ! i) < m" by (rule less_trans)
      with shift [of i] 2 True show ?thesis by simp
    qed
  next
    case False
    with 2 consider "choose_exit rest m n = (n, m)"
      | i where "i < length rest"
          "choose_exit rest m n = (Some (fst (rest ! i)), snd (rest ! i))"
          "snd (rest ! i) < m" "\<forall>j<i. snd (rest ! i) < snd (rest ! j)"
      by blast
    then show ?thesis
    proof cases
      case 1
      with False show ?thesis by simp
    next
      case (2 i)
      from 2(3) False have "snd (rest ! i) < d" by auto
      with shift [of i] 2 False show ?thesis by simp
    qed
  qed
qed

lemma positive_campus_graph: "positive_links campus_graph"
  by code_simp


lemma path_and_distance_Some:
  "dijkstra pf a b t em tr = Some (Inr r)
     \<Longrightarrow> path_and_distance (dijkstra pf a b t em tr) = Some (result_path r, result_distance r)"
  by (simp add: path_and_distance_def)

lemma path_cost_nonneg:
  "(\<And>u v. Fin 0 \<le> w u v) \<Longrightarrow> Fin 0 \<le> path_cost w p"
  by (induction w p rule: path_cost.induct) (auto intro: add_cost_nonneg)

lemma path_cost_positive:
  assumes w: "\<And>u v. Fin 1 \<le> w u v" and p: "path_from_to start e p" and ne: "e \<noteq> start"
  shows "path_cost w p \<noteq> Fin 0"
proof -
  from p ne obtain v q where pq: "p = start # v # q"
    unfolding path_from_to_def
    by (cases p; cases "tl p") (auto split: if_splits)
  have "Fin 0 \<le> w u v" for u v
    using w [of u v] by (cases "w u v") auto
  then have "Fin 0 \<le> path_cost w (v # q)" by (rule path_cost_nonneg)
  with w [of start v] show ?thesis
    unfolding pq by (cases "w start v"; cases "path_cost w (v # q)") auto
qed

lemma emergency_weight_positive:
  assumes "positive_links (graph pf)"
  shows "Fin 1 \<le> edge_cost pf t True u v"
proof (cases "edge_cost pf t True u v = Inf")
  case True
  then show ?thesis by simp
next
  case False
  then have fin: "get_effective_weight pf u v t True \<noteq> Inf" by (simp add: edge_cost_def)
  from weight_finiteD [OF fin] obtain node c where
    n: "map_of (nodes (graph pf)) u = Some node" and c: "map_of (connections node) v = Some c"
    and nb: "path_key u v \<notin> blocked_paths pf"
    by blast
  from assms map_of_SomeD [OF n] map_of_SomeD [OF c] have "0 < distance c"
    unfolding positive_links_def by fastforce
  with n c nb show ?thesis
    by (simp add: edge_cost_def get_effective_weight_def)
qed

lemma exit_distance_facts:
  assumes wf: "wf_graph (graph pf)"
    and st: "start \<in> set (get_all_nodes (graph pf))"
    and e: "e \<in> set (exit_points (graph pf))"
  shows "\<exists>r. dijkstra pf start e t True False = Some (Inr r)"
    and "Fin 0 \<le> exit_distance pf start t e"
    and "positive_links (graph pf) \<Longrightarrow> e \<noteq> start \<Longrightarrow> exit_distance pf start t e \<noteq> Fin 0"
proof -
  from wf e have en: "e \<in> set (get_all_nodes (graph pf))"
    unfolding wf_graph_def by blast
  from dijkstra_correct [OF wf st en, of t True False] obtain r where
    r: "dijkstra pf start e t True False = Some (Inr r)"
    and vis: "e \<in> visited_nodes r \<Longrightarrow>
                path_from_to start e (result_path r)
                \<and> path_cost (edge_cost pf t True) (result_path r) = result_distance r"
    and nvis: "e \<notin> visited_nodes r \<Longrightarrow> result_distance r = Inf"
    and nn: "Fin 0 \<le> result_distance r"
    by blast
  have d: "exit_distance pf start t e = result_distance r"
    using r by (simp add: exit_distance_def)
  from r show "\<exists>r. dijkstra pf start e t True False = Some (Inr r)" by blast
  from nn d show "Fin 0 \<le> exit_distance pf start t e" by simp
  show "exit_distance pf start t e \<noteq> Fin 0" if pos: "positive_links (graph pf)" and ne: "e \<noteq> start"
  proof (cases "e \<in> visited_nodes r")
    case True
    from vis [OF True] have pp: "path_from_to start e (result_path r)"
      and pc: "path_cost (edge_cost pf t True) (result_path r) = result_distance r"
      by simp_all
    have "path_cost (edge_cost pf t True) (result_path r) \<noteq> Fin 0"
      using emergency_weight_positive [OF pos, of t] pp ne by (rule path_cost_positive)
    with pc d show ?thesis by simp
  next
    case False
    from nvis [OF False] d show ?thesis by simp
  qed
qed

lemma exit_distance_start:
  "start \<in> set (get_all_nodes (graph pf)) \<Longrightarrow> exit_distance pf start t start = Fin 0"
  by (simp add: exit_distance_def dijkstra_same_node)

lemma nearest_exit_choice:
  assumes wf: "wf_graph (graph pf)" and st: "start \<in> set (get_all_nodes (graph pf))"
  shows "find_nearest_exit pf start t
           = Some (Inr (choose_exit
               (map (\<lambda>e. (e, exit_distance pf start t e)) (exit_points (graph pf))) Inf None))"
  unfolding find_nearest_exit_def
  by (rule exit_loop_eq) (rule exit_distance_facts(1) [OF wf st])

section \<open>The claims\<close>







text \<open>
  C3. For a link that is in the graph and not blocked, the weight in emergency mode is
  the base distance, plus 500 if the source is a hazard zone, plus 500 if the target is
  one, whatever the time of day and the multipliers. Starting with neither endpoint
  hazardous, marking one endpoint (which cannot be an exit point) adds exactly 500, and
  marking both adds exactly 1000.
\<close>

theorem emergency_weight_hazard_penalty:
  assumes "path_key from_node to_node \<notin> blocked_paths pf"
    and "find_connection (graph pf) from_node to_node = Some c"
  shows "get_effective_weight pf from_node to_node t True
           = Fin (distance c + (if from_node \<in> hazard_zones pf then 500 else 0)
                             + (if to_node \<in> hazard_zones pf then 500 else 0))
       \<and> get_effective_weight pf from_node to_node t True
           = get_effective_weight pf from_node to_node t' True
       \<and> (from_node \<notin> hazard_zones pf \<and> to_node \<notin> hazard_zones pf \<longrightarrow>
            get_effective_weight pf from_node to_node t True = Fin (distance c)
          \<and> (from_node \<noteq> to_node \<and> from_node \<notin> set (exit_points (graph pf)) \<longrightarrow>
               get_effective_weight (add_hazard_zone pf from_node) from_node to_node t True
                 = Fin (distance c + 500))
          \<and> (from_node \<noteq> to_node \<and> to_node \<notin> set (exit_points (graph pf)) \<longrightarrow>
               get_effective_weight (add_hazard_zone pf to_node) from_node to_node t True
                 = Fin (distance c + 500))
          \<and> (from_node \<notin> set (exit_points (graph pf))
              \<and> to_node \<notin> set (exit_points (graph pf)) \<longrightarrow>
               get_effective_weight (add_hazard_zone (add_hazard_zone pf from_node) to_node)
                   from_node to_node t True
                 = Fin (distance c + 1000)))"
proof -
  have *: "get_effective_weight (pf\<lparr>hazard_zones := H\<rparr>) from_node to_node t True
             = Fin (distance c + (if from_node \<in> H then 500 else 0)
                               + (if to_node \<in> H then 500 else 0))" for H
    using assms get_effective_weight_emergency [of from_node to_node "pf\<lparr>hazard_zones := H\<rparr>" c t]
    by simp
  show ?thesis
    using get_effective_weight_emergency [OF assms]
    by (auto simp: add_hazard_zone_not_exit *)
qed

theorem emergency_weight_hazard_penalty_witness:
  "get_effective_weight (new_PathFinder campus_graph) ''Library'' ''Computer Lab'' EVENING True
     = Fin 120
   \<and> get_effective_weight (add_hazard_zone (new_PathFinder campus_graph) ''Library'')
       ''Library'' ''Computer Lab'' EVENING True = Fin 620
   \<and> get_effective_weight (add_hazard_zone (new_PathFinder campus_graph) ''Computer Lab'')
       ''Library'' ''Computer Lab'' EVENING True = Fin 620
   \<and> get_effective_weight
       (add_hazard_zone (add_hazard_zone (new_PathFinder campus_graph) ''Library'') ''Computer Lab'')
       ''Library'' ''Computer Lab'' EVENING True = Fin 1120"
proof -
  have 1: "path_key ''Library'' ''Computer Lab'' \<notin> blocked_paths (new_PathFinder campus_graph)"
    by (simp add: new_PathFinder_def)
  have 2: "find_connection (graph (new_PathFinder campus_graph)) ''Library'' ''Computer Lab''
             = Some (conn 120 (16/10) (14/10) (10/10))"
    by (simp add: new_PathFinder_def campus_graph_def initialize_campus_graph_def
          find_connection_def)
  show ?thesis
    using emergency_weight_hazard_penalty [OF 1 2, of EVENING EVENING]
    by (simp add: new_PathFinder_def campus_graph_def conn_def mk_conn_def)
qed

text \<open>
  C4. When the sorted pair of two locations is in the blocked set, the weight between
  them is infinite in both directions, in emergency mode and at every time of day,
  whether or not the graph has the link; blocking a pair puts it in that state.
\<close>

theorem blocked_weight_infinite:
  "(path_key a b \<in> blocked_paths pf \<longrightarrow>
      get_effective_weight pf a b t em = Inf \<and> get_effective_weight pf b a t em = Inf)
   \<and> get_effective_weight (block_path pf a b) a b t em = Inf
   \<and> get_effective_weight (block_path pf a b) b a t em = Inf"
  by (simp add: get_effective_weight_def block_path_def path_key_commute [of b a])

theorem blocked_weight_infinite_witness:
  "path_key ''Library'' ''Nowhere'' \<in> blocked_paths (block_path (new_PathFinder campus_graph) ''Nowhere'' ''Library'')
   \<and> get_effective_weight (block_path (new_PathFinder campus_graph) ''Nowhere'' ''Library'')
        ''Library'' ''Nowhere'' AFTERNOON False = Inf
   \<and> get_effective_weight (block_path (new_PathFinder campus_graph) ''Nowhere'' ''Library'')
        ''Nowhere'' ''Library'' AFTERNOON False = Inf"
proof -
  have 1: "path_key ''Library'' ''Nowhere''
             \<in> blocked_paths (block_path (new_PathFinder campus_graph) ''Nowhere'' ''Library'')"
    by (simp add: block_path_def path_key_commute [of "''Nowhere''"])
  show ?thesis
    using 1 blocked_weight_infinite
      [of "''Library''" "''Nowhere''"
          "block_path (new_PathFinder campus_graph) ''Nowhere'' ''Library''" AFTERNOON False]
    by simp
qed

text \<open>
  C5. Marking an exit point as a hazard changes nothing. Every sequence of calls keeps
  the hazard zones disjoint from the exit points, from any state in which they are
  disjoint, and so from the initial state.
\<close>

theorem exits_never_hazardous:
  "(node \<in> set (exit_points (graph pf)) \<longrightarrow> add_hazard_zone pf node = pf)
   \<and> (exits_hazard_free pf \<longrightarrow> exits_hazard_free (perform_all pf ops))
   \<and> exits_hazard_free (perform_all (new_PathFinder g) ops)"
proof -
  have "exits_hazard_free (new_PathFinder g)"
    by (simp add: exits_hazard_free_def new_PathFinder_def)
  then show ?thesis
    by (simp add: add_hazard_zone_def perform_all_exits_hazard_free)
qed

theorem exits_never_hazardous_witness:
  "''Main Gate'' \<in> set (exit_points (graph (new_PathFinder campus_graph)))
   \<and> add_hazard_zone (new_PathFinder campus_graph) ''Main Gate'' = new_PathFinder campus_graph
   \<and> exits_hazard_free (new_PathFinder campus_graph)
   \<and> exits_hazard_free (perform_all (new_PathFinder campus_graph)
        [AddHazard ''Library'', AddHazard ''Sports Complex'', BlockPath ''Hostel'' ''Auditorium'',
         RemoveHazard ''Library'', AddHazard ''Main Gate'', ResetAll, AddHazard ''Main Gate''])"
proof -
  have 1: "''Main Gate'' \<in> set (exit_points (graph (new_PathFinder campus_graph)))"
    by (simp add: new_PathFinder_def campus_graph_def)
  have 2: "exits_hazard_free (new_PathFinder campus_graph)"
    by (simp add: exits_hazard_free_def new_PathFinder_def)
  show ?thesis
    using 1 2 exits_never_hazardous [of "''Main Gate''" "new_PathFinder campus_graph"
      "[AddHazard ''Library'', AddHazard ''Sports Complex'', BlockPath ''Hostel'' ''Auditorium'',
         RemoveHazard ''Library'', AddHazard ''Main Gate'', ResetAll, AddHazard ''Main Gate'']"]
    by simp
qed

text \<open>
  C6, as the code has it. On a well-formed graph, for a known start, the exit finder
  returns the choice among the exit points, taken in their declared order with their
  distances from the emergency search without trace, where only a strictly smaller
  distance replaces the running minimum: the distance returned is the least one, the
  exit returned is the first one at that distance, and when no exit can be reached the
  result is no exit with distance infinity. When the start is an exit point the
  distance is 0 and the exit is the first one at distance 0; this is the start itself
  when no other exit is at distance 0, as on every graph whose links have positive base
  distances.
\<close>

theorem nearest_exit_first_minimum:
  assumes "wf_graph (graph pf)" and "start \<in> set (get_all_nodes (graph pf))"
  shows "\<exists>ex d. find_nearest_exit pf start t = Some (Inr (ex, d))
           \<and> (ex, d) = choose_exit
                 (map (\<lambda>e. (e, exit_distance pf start t e)) (exit_points (graph pf))) Inf None
           \<and> (\<forall>e\<in>set (exit_points (graph pf)). d \<le> exit_distance pf start t e)
           \<and> (ex = None \<longleftrightarrow> d = Inf)
           \<and> (d = Inf \<longleftrightarrow> (\<forall>e\<in>set (exit_points (graph pf)). exit_distance pf start t e = Inf))
           \<and> (\<forall>x. ex = Some x \<longrightarrow>
                 (\<exists>i<length (exit_points (graph pf)).
                    x = exit_points (graph pf) ! i \<and> d = exit_distance pf start t x
                    \<and> (\<forall>j<i. d < exit_distance pf start t (exit_points (graph pf) ! j))))
           \<and> (start \<in> set (exit_points (graph pf)) \<longrightarrow>
                 d = Fin 0 \<and> ex \<noteq> None
                 \<and> ((\<forall>e\<in>set (exit_points (graph pf)).
                        e \<noteq> start \<longrightarrow> exit_distance pf start t e \<noteq> Fin 0)
                      \<longrightarrow> ex = Some start)
                 \<and> (positive_links (graph pf) \<longrightarrow> ex = Some start))"
proof -
  let ?exits = "exit_points (graph pf)"
  let ?dist = "exit_distance pf start t"
  let ?xs = "map (\<lambda>e. (e, ?dist e)) ?exits"
  obtain ex d where ch: "choose_exit ?xs Inf None = (ex, d)"
    by (cases "choose_exit ?xs Inf None")
  have res: "find_nearest_exit pf start t = Some (Inr (ex, d))"
    using nearest_exit_choice [OF assms, of t] ch by simp
  from choose_exit_le [of ?xs Inf None] ch
  have le: "d \<le> ?dist e" if "e \<in> set ?exits" for e
    using that by force
  from choose_exit_first [of ?xs Inf None] ch
  consider (none) "ex = None" "d = Inf"
    | (some) i where "i < length ?exits" "ex = Some (?exits ! i)" "d = ?dist (?exits ! i)"
        "d \<noteq> Inf" "\<forall>j<i. d < ?dist (?exits ! j)"
    by auto
  then have shape: "(ex = None \<longleftrightarrow> d = Inf)
      \<and> (\<forall>x. ex = Some x \<longrightarrow>
            (\<exists>i<length ?exits. x = ?exits ! i \<and> d = ?dist x \<and> (\<forall>j<i. d < ?dist (?exits ! j))))"
  proof cases
    case none
    then show ?thesis by simp
  next
    case (some i)
    then show ?thesis by auto
  qed
  have inf: "d = Inf \<longleftrightarrow> (\<forall>e\<in>set ?exits. ?dist e = Inf)"
  proof
    assume "d = Inf"
    with le show "\<forall>e\<in>set ?exits. ?dist e = Inf" by auto
  next
    assume all: "\<forall>e\<in>set ?exits. ?dist e = Inf"
    show "d = Inf"
    proof (rule ccontr)
      assume "d \<noteq> Inf"
      with shape obtain x where "ex = Some x" by (cases ex) auto
      with shape obtain i where "i < length ?exits" "d = ?dist (?exits ! i)" by blast
      with all \<open>d \<noteq> Inf\<close> show False by (auto simp: all_set_conv_all_nth)
    qed
  qed
  have at_start: "d = Fin 0 \<and> ex \<noteq> None
      \<and> ((\<forall>e\<in>set ?exits. e \<noteq> start \<longrightarrow> ?dist e \<noteq> Fin 0) \<longrightarrow> ex = Some start)
      \<and> (positive_links (graph pf) \<longrightarrow> ex = Some start)"
    if st: "start \<in> set ?exits"
  proof -
    have d0: "?dist start = Fin 0" by (rule exit_distance_start [OF assms(2)])
    with le [OF st] have "d \<le> Fin 0" by simp
    then have fin: "d \<noteq> Inf" by auto
    with shape obtain x where x: "ex = Some x" by (cases ex) auto
    with shape obtain i where i: "i < length ?exits" "x = ?exits ! i" "d = ?dist x" by blast
    then have xe: "x \<in> set ?exits" by simp
    from exit_distance_facts(2) [OF assms xe, of t] i(3) \<open>d \<le> Fin 0\<close>
    have dz: "d = Fin 0" by (cases d) auto
    have only: "ex = Some start" if "\<forall>e\<in>set ?exits. e \<noteq> start \<longrightarrow> ?dist e \<noteq> Fin 0"
      using that xe i(3) dz x by auto
    have "ex = Some start" if pos: "positive_links (graph pf)"
    proof (rule only, intro ballI impI)
      fix e assume "e \<in> set ?exits" "e \<noteq> start"
      then show "?dist e \<noteq> Fin 0"
        by (intro exit_distance_facts(3) [OF assms _ pos])
    qed
    with dz x only show ?thesis by simp
  qed
  show ?thesis
    using res ch le shape inf at_start by (intro exI [of _ ex] exI [of _ d]) simp
qed

theorem nearest_exit_first_minimum_witness:
  "wf_graph (graph (add_hazard_zone (new_PathFinder campus_graph) ''Library''))
   \<and> ''Main Gate'' \<in> set (get_all_nodes (graph (add_hazard_zone (new_PathFinder campus_graph) ''Library'')))
   \<and> ''Main Gate'' \<in> set (exit_points (graph (add_hazard_zone (new_PathFinder campus_graph) ''Library'')))
   \<and> positive_links (graph (add_hazard_zone (new_PathFinder campus_graph) ''Library''))
   \<and> find_nearest_exit (add_hazard_zone (new_PathFinder campus_graph) ''Library'')
        ''Main Gate'' MORNING = Some (Inr (Some ''Main Gate'', Fin 0))"
proof -
  let ?pf = "add_hazard_zone (new_PathFinder campus_graph) ''Library''"
  have 1: "wf_graph (graph ?pf)" by (simp add: wf_campus_graph)
  have 2: "''Main Gate'' \<in> set (get_all_nodes (graph ?pf))" by (simp add: campus_nodes)
  have 3: "''Main Gate'' \<in> set (exit_points (graph ?pf))" by (simp add: campus_graph_def)
  have 4: "positive_links (graph ?pf)" by (simp add: positive_campus_graph)
  from nearest_exit_first_minimum [OF 1 2, of MORNING] 3 4
  have "find_nearest_exit ?pf ''Main Gate'' MORNING = Some (Inr (Some ''Main Gate'', Fin 0))"
    by auto
  with 1 2 3 4 show ?thesis by blast
qed

text \<open>
  C6, as the specification states it, fails where an exit declared before the start is
  at distance 0 from it: with the exits A and B joined by a link of length 0, the
  nearest exit from B is A, the first of the two at distance 0.
\<close>

theorem nearest_exit_start_counterexample:
  "wf_graph zero_link_graph
   \<and> ''B'' \<in> set (exit_points zero_link_graph)
   \<and> find_nearest_exit (new_PathFinder zero_link_graph) ''B'' MORNING
       = Some (Inr (Some ''A'', Fin 0))"
  by code_simp



text \<open>
  C8, as the code has it. For a known location, the search from it to itself returns
  the path that holds this location alone, not the empty path, with distance 0.
\<close>

theorem same_node_single_element_path:
  assumes "start \<in> set (get_all_nodes (graph pf))"
  shows "\<exists>r. dijkstra pf start start t em tr = Some (Inr r)
           \<and> result_path r = [start] \<and> result_distance r = Fin 0
           \<and> visited_nodes r = {start}"
  using dijkstra_same_node [OF assms, of t em tr] by simp

theorem same_node_single_element_path_witness:
  "''Hostel'' \<in> set (get_all_nodes (graph (new_PathFinder campus_graph)))
   \<and> (\<exists>r. dijkstra (new_PathFinder campus_graph) ''Hostel'' ''Hostel'' EVENING True True
             = Some (Inr r)
        \<and> result_path r = [''Hostel''] \<and> result_distance r = Fin 0
        \<and> visited_nodes r = {''Hostel''})"
proof -
  have 1: "''Hostel'' \<in> set (get_all_nodes (graph (new_PathFinder campus_graph)))"
    by (simp add: campus_nodes)
  from same_node_single_element_path [OF 1, of EVENING True True] 1 show ?thesis
    by blast
qed

text \<open>
  C8, as the specification states it, fails: the query from the Main Gate to the Main
  Gate returns a path of one element.
\<close>

theorem same_node_empty_path_counterexample:
  "path_and_distance
     (dijkstra (new_PathFinder campus_graph) ''Main Gate'' ''Main Gate'' MORNING False True)
     = Some ([''Main Gate''], Fin 0)
   \<and> [''Main Gate''] \<noteq> ([] :: string list)"
  by code_simp

text \<open>
  C9, as the code has it. When the pair is not blocked beforehand, blocking it and then
  unblocking it gives back the same path finder, so every query answers as before; and
  blocking a pair twice is blocking it once.
\<close>

theorem block_unblock_round_trip:
  "(path_key a b \<notin> blocked_paths pf \<longrightarrow>
      unblock_path (block_path pf a b) a b = pf
      \<and> dijkstra (unblock_path (block_path pf a b) a b) start end_node t em tr
          = dijkstra pf start end_node t em tr
      \<and> find_nearest_exit (unblock_path (block_path pf a b) a b) start t
          = find_nearest_exit pf start t)
   \<and> block_path (block_path pf a b) a b = block_path pf a b"
proof -
  have "unblock_path (block_path pf a b) a b = pf" if "path_key a b \<notin> blocked_paths pf"
    using that by (simp add: unblock_path_def block_path_def)
  then show ?thesis
    by (auto simp: block_path_def)
qed

theorem block_unblock_round_trip_witness:
  "path_key ''Library'' ''Computer Lab'' \<notin> blocked_paths (new_PathFinder campus_graph)
   \<and> unblock_path (block_path (new_PathFinder campus_graph) ''Library'' ''Computer Lab'')
        ''Library'' ''Computer Lab'' = new_PathFinder campus_graph"
proof -
  have 1: "path_key ''Library'' ''Computer Lab'' \<notin> blocked_paths (new_PathFinder campus_graph)"
    by (simp add: new_PathFinder_def)
  show ?thesis
    using 1 block_unblock_round_trip [of "''Library''" "''Computer Lab''"
      "new_PathFinder campus_graph"]
    by simp
qed

text \<open>
  C9, as the specification states it, fails when the pair is blocked beforehand: the
  second block changes nothing and the unblock then opens the link, so the route from
  the Main Gate to the Computer Lab goes from 570 by the Admin Block to 417 by the
  Library.
\<close>

theorem block_unblock_counterexample:
  "path_and_distance (dijkstra lab_blocked ''Main Gate'' ''Computer Lab'' MORNING False False)
     = Some ([''Main Gate'', ''Admin Block'', ''Computer Lab''], Fin 570)
   \<and> path_and_distance
       (dijkstra (unblock_path (block_path lab_blocked ''Library'' ''Computer Lab'')
                    ''Library'' ''Computer Lab'')
          ''Main Gate'' ''Computer Lab'' MORNING False False)
     = Some ([''Main Gate'', ''Library'', ''Computer Lab''], Fin 417)"
  by code_simp


end
